theory Spec2Isabelle
  imports Main
begin

section \<open>The settings manager of FrankerFaceZ\<close>

text \<open>
  A shallow embedding of the class \<open>SettingsManager\<close> (the script part of
  \<^verbatim>\<open>src/modules/main_menu/components/addon.vue\<close>, lines 228 to 765). The manager is a
  record of its fields; every method takes the manager and returns the updated one.
  JavaScript objects that are shared by reference and mutated in place (the definition
  objects of the registry and their arrays, the \<open>SettingsProfile\<close> instances) live in
  explicit stores and are named by their index there.
\<close>

subsection \<open>Data model\<close>

type_synonym aref = nat  \<comment> \<open>address of an array of keys\<close>
type_synonym dref = nat  \<comment> \<open>address of a definition object\<close>
type_synonym uref = nat  \<comment> \<open>address of a \<open>ui\<close> descriptor\<close>
type_synonym pref = nat  \<comment> \<open>address of a \<open>SettingsProfile\<close> instance\<close>

text \<open>
  A definition object. \<open>add\<close> stores the caller's object itself and writes to it, so
  definition objects live in a store and are named by their address. The arrays
  \<open>requires\<close> (field \<open>requires_arr\<close>) and \<open>required_by\<close> are addresses of the array store,
  missing (\<open>None\<close>) where the object has no such property; the \<open>ui\<close> descriptor is an
  object of its own store, opaque (type \<open>'u\<close>); \<open>changed\<close> is an optional callback
  (named by a number).
\<close>

record def_obj =
  requires_arr :: "aref option"
  required_by :: "aref option"
  ui :: "uref option"
  changed :: "nat option"

text \<open>
  A value of the map \<open>this.definitions\<close>: either a bare array of keys (the placeholder
  of a key that is required but not registered yet, \<open>Array.isArray\<close>), or a registered
  definition object.
\<close>

datatype entry = Placeholder aref | Definition dref

text \<open>
  A persisted profile blob (an element of the list stored under the provider key
  \<open>profiles\<close>, and the \<open>data\<close> of a profile instance): the fields the manager reads.
  \<open>context\<close> is missing or \<open>null\<close> (\<open>None\<close>), an array of rules, or an object of the old
  format, of which only the truthiness of \<open>moderator\<close> is read.
\<close>

datatype context_val = Rules "string list" | Legacy (moderator: bool)

record profile_data =
  data_id :: int
  data_name :: "string option"
  data_context :: "context_val option"
  data_url :: "string option"

text \<open>
  Modelled from the spec: the class \<open>SettingsProfile\<close> (\<^verbatim>\<open>./profile\<close>, not under src/).
  An instance holds the raw persisted blob as its \<open>data\<close> (its \<open>id\<close> and \<open>url\<close> are
  those of the blob) and its event listeners (\<open>__listeners\<close>); \<open>new SettingsProfile(manager,
  data)\<close> makes an instance with that data and no listener.
\<close>

record profile =
  data :: profile_data
  profile_listeners :: "(string \<times> nat) list"

definition new_SettingsProfile :: "profile_data \<Rightarrow> profile" where
  "new_SettingsProfile d = \<lparr>data = d, profile_listeners = []\<rparr>"

text \<open>A JSON-serialisable setting value.\<close>

datatype json = JNull | JBool bool | JNum int | JStr string | JList "json list"

text \<open>
  Modelled from the spec: the storage provider (\<^verbatim>\<open>./providers\<close>, not under src/) persists a
  flat mapping from string keys to values; the reserved key \<open>profiles\<close> holds the ordered
  list of profile blobs. \<open>entries()\<close> is the sequence of its pairs, so the provider is an
  association list with \<open>get\<close>, \<open>set\<close> and \<open>delete\<close> on it.
\<close>

datatype pvalue = Profile_blobs "profile_data list" | Plain json

type_synonym provider = "(string \<times> pvalue) list"

definition provider_get :: "provider \<Rightarrow> string \<Rightarrow> pvalue option" where
  "provider_get p k = map_of p k"

fun provider_set :: "string \<Rightarrow> pvalue \<Rightarrow> provider \<Rightarrow> provider" where
  "provider_set k v [] = [(k, v)]"
| "provider_set k v ((k', v') # p) =
     (if k = k' then (k, v) # p else (k', v') # provider_set k v p)"

definition provider_delete :: "string \<Rightarrow> provider \<Rightarrow> provider" where
  "provider_delete k p = filter (\<lambda>(k', _). k' \<noteq> k) p"

text \<open>
  What the manager does to the world besides changing its own fields, in the order it
  happens: the events it emits on itself, the events it emits on a profile instance, the
  calls of \<open>selectProfiles()\<close> on a context, of \<open>checkUpdate()\<close> on a profile, and the
  summary line of an update sweep.
\<close>

datatype effect =
    Added_definition string
  | Profile_created pref
  | Profile_changed pref
  | Profile_deleted pref
  | Profiles_reordered
  | Select_profiles nat
  | Changed_on pref string pvalue bool
  | Check_update pref
  | Log_refreshed nat nat

datatype error = Cannot_delete_default | Not_iterable | Type_error | Ui_error

text \<open>
  The fields of the manager: \<open>definitions\<close> with the stores of the arrays of keys,
  of the definition objects and of the \<open>ui\<close> descriptors; \<open>listeners\<close>, what \<open>this.on\<close> has registered; \<open>contexts\<close>,
  \<open>profiles\<close> and \<open>profile_ids\<close> for \<open>__contexts\<close>, \<open>__profiles\<close> and \<open>__profile_ids\<close>;
  the store \<open>heap\<close> of profile instances; the provider and its readiness;
  \<open>update_timer\<close> for \<open>_update_timer\<close>, with the timers of the page and the next free
  handle; and the trace of effects.
\<close>

record 'u manager =
  definitions :: "string \<rightharpoonup> entry"
  arrays :: "string list list"
  objects :: "def_obj list"
  uis :: "'u list"
  listeners :: "(string \<times> nat) list"
  contexts :: "nat list"
  profiles :: "pref list"
  profile_ids :: "string \<rightharpoonup> pref"
  heap :: "profile list"
  provider :: provider
  provider_ready :: bool
  update_timer :: "nat option"
  pending_timers :: "(nat \<times> nat) list"
  next_timer :: nat
  trace :: "effect list"

subsection \<open>Registering definitions: \<open>add\<close>\<close>

text \<open>\<open>req.push(key)\<close> on the array at an address.\<close>

definition push :: "aref \<Rightarrow> string \<Rightarrow> string list list \<Rightarrow> string list list" where
  "push r key arrs = arrs[r := arrs ! r @ [key]]"

text \<open>
  One iteration of \<open>for(const req_key of definition.requires)\<close> (lines 665 to 673).
  \<open>req.required_by.push(key)\<close> throws a \<open>TypeError\<close> when the stored object has no
  \<open>required_by\<close>.
\<close>

definition add_edge :: "string \<Rightarrow> 'u manager \<Rightarrow> string \<Rightarrow> error option \<times> 'u manager" where
  "add_edge key st req_key =
     (case definitions st req_key of
        None \<Rightarrow>
          (None, st\<lparr>definitions := (definitions st)(req_key \<mapsto> Placeholder (length (arrays st))),
                    arrays := arrays st @ [[key]]\<rparr>)
      | Some (Placeholder r) \<Rightarrow> (None, st\<lparr>arrays := push r key (arrays st)\<rparr>)
      | Some (Definition ob) \<Rightarrow>
          (case required_by (objects st ! ob) of
             None \<Rightarrow> (Some Type_error, st)
           | Some r \<Rightarrow> (None, st\<lparr>arrays := push r key (arrays st)\<rparr>)))"

text \<open>
  The loop itself, from the index \<open>i\<close>. The array iterator reads the array \<open>ra\<close> at
  every step, and an iteration may push to that very array when the caller passed one of
  the registry's arrays as \<open>requires\<close>; so the loop has no bound of its own and is a
  partial function: \<open>None\<close> means that it does not return. It stops at the first error.
\<close>

partial_function (option) add_loop ::
  "string \<Rightarrow> aref \<Rightarrow> nat \<Rightarrow> 'u manager \<Rightarrow> (error option \<times> 'u manager) option" where
  "add_loop key ra i st =
     (if i < length (arrays st ! ra)
      then (if fst (add_edge key st (arrays st ! ra ! i)) \<noteq> None
            then Some (add_edge key st (arrays st ! ra ! i))
            else add_loop key ra (Suc i) (snd (add_edge key st (arrays st ! ra ! i))))
      else Some (None, st))"

declare add_loop.simps [code]

text \<open>Writing a field of the definition object at an address.\<close>

definition set_required_by :: "dref \<Rightarrow> aref option \<Rightarrow> 'u manager \<Rightarrow> 'u manager" where
  "set_required_by d rb st =
     st\<lparr>objects := (objects st)[d := (objects st ! d)\<lparr>required_by := rb\<rparr>]\<rparr>"

definition set_requires :: "dref \<Rightarrow> aref \<Rightarrow> 'u manager \<Rightarrow> 'u manager" where
  "set_requires d ra st =
     st\<lparr>objects := (objects st)[d := (objects st ! d)\<lparr>requires_arr := Some ra\<rparr>]\<rparr>"

text \<open>
  Lines 676 to 686: the \<open>ui\<close> descriptor of the definition, when it has one, is
  normalised in place by \<open>format_path_tokens\<close> or \<open>parse_path\<close> and by
  \<open>toSnakeCase\<close>. These work on the opaque descriptor (with \<open>JSON.parse\<close>, a regular
  expression and a string helper that is not under src/) and can throw; they are the
  parameter \<open>prep\<close>, which gives the descriptor as the attempt leaves it and whether it
  threw.
\<close>

definition normalise_ui ::
  "('u \<Rightarrow> bool \<times> 'u) \<Rightarrow> dref \<Rightarrow> 'u manager \<Rightarrow> error option \<times> 'u manager" where
  "normalise_ui prep d st =
     (case ui (objects st ! d) of
        None \<Rightarrow> (None, st)
      | Some u \<Rightarrow>
          (if fst (prep (uis st ! u)) then Some Ui_error else None,
           st\<lparr>uis := (uis st)[u := snd (prep (uis st ! u))]\<rparr>))"

text \<open>
  Lines 658 to 660: the array that becomes \<open>definition.required_by\<close> is chosen before
  the loop. It is the array of the old entry (the placeholder itself, or the old
  definition's \<open>required_by\<close>, which may be missing), or a fresh empty array when the key
  has no entry.
\<close>

definition choose_required_by :: "string \<Rightarrow> 'u manager \<Rightarrow> aref option \<times> 'u manager" where
  "choose_required_by key st =
     (case definitions st key of
        None \<Rightarrow> (Some (length (arrays st)), st\<lparr>arrays := arrays st @ [[]]\<rparr>)
      | Some (Placeholder r) \<Rightarrow> (Some r, st)
      | Some (Definition ob) \<Rightarrow> (required_by (objects st ! ob), st))"

text \<open>Line 663, \<open>definition.requires = definition.requires || []\<close>: the array the loop reads.\<close>

definition ensure_requires :: "dref \<Rightarrow> 'u manager \<Rightarrow> aref \<times> 'u manager" where
  "ensure_requires d st =
     (case requires_arr (objects st ! d) of
        Some ra \<Rightarrow> (ra, st)
      | None \<Rightarrow> (length (arrays st),
                 set_requires d (length (arrays st)) (st\<lparr>arrays := arrays st @ [[]]\<rparr>)))"

text \<open>
  Lines 676 to 692, after the loop: the normalisation of the descriptor, the listener
  for \<open>definition.changed\<close>, \<open>this.definitions.set(key, definition)\<close> and the event. An
  error of the normalisation leaves the registry without the new entry.
\<close>

definition finish_add ::
  "('u \<Rightarrow> bool \<times> 'u) \<Rightarrow> string \<Rightarrow> dref \<Rightarrow> 'u manager \<Rightarrow> error option \<times> 'u manager" where
  "finish_add prep key d st =
     (case normalise_ui prep d st of
        (Some e, st1) \<Rightarrow> (Some e, st1)
      | (None, st1) \<Rightarrow>
          let st2 = (case changed (objects st1 ! d) of
                       None \<Rightarrow> st1
                     | Some cb \<Rightarrow>
                         st1\<lparr>listeners := listeners st1 @ [('':changed:'' @ key, cb)]\<rparr>)
          in (None, st2\<lparr>definitions := (definitions st2)(key \<mapsto> Definition d),
                        trace := trace st2 @ [Added_definition key]\<rparr>))"

text \<open>
  \<open>add(key, definition)\<close> for a string key (lines 658 to 692); \<open>d\<close> is the address of
  the caller's object. The result is \<open>None\<close> when the loop does not return, and
  otherwise the error thrown, if any, with the manager as the call leaves it: an error
  of the loop ends the call where it is thrown.
\<close>

definition add ::
  "('u \<Rightarrow> bool \<times> 'u) \<Rightarrow> string \<Rightarrow> dref \<Rightarrow> 'u manager \<Rightarrow> (error option \<times> 'u manager) option" where
  "add prep key d st =
     (let (rb, st1) = choose_required_by key st;
          st2 = set_required_by d rb st1;
          (ra, st3) = ensure_requires d st2
      in case add_loop key ra 0 st3 of
           None \<Rightarrow> None
         | Some (Some e, st4) \<Rightarrow> Some (Some e, st4)
         | Some (None, st4) \<Rightarrow> Some (finish_add prep key d st4))"

text \<open>
  The caller writing an object literal: a new definition object, with a new array when
  it has \<open>requires\<close> and a new descriptor when it has \<open>ui\<close>.
\<close>

definition new_definition ::
  "string list option \<Rightarrow> 'u option \<Rightarrow> nat option \<Rightarrow> 'u manager \<Rightarrow> dref \<times> 'u manager" where
  "new_definition reqs u cb st =
     (length (objects st),
      st\<lparr>arrays := (case reqs of None \<Rightarrow> arrays st | Some rs \<Rightarrow> arrays st @ [rs]),
         uis := (case u of None \<Rightarrow> uis st | Some x \<Rightarrow> uis st @ [x]),
         objects := objects st @
           [\<lparr>requires_arr = (case reqs of None \<Rightarrow> None | Some rs \<Rightarrow> Some (length (arrays st))),
             required_by = None,
             ui = (case u of None \<Rightarrow> None | Some x \<Rightarrow> Some (length (uis st))),
             changed = cb\<rparr>]\<rparr>)"

text \<open>\<open>add(key, {requires: ..., ui: ..., changed: ...})\<close>: a call with an object literal.\<close>

definition add_literal ::
  "('u \<Rightarrow> bool \<times> 'u) \<Rightarrow> string \<Rightarrow> string list option \<Rightarrow> 'u option \<Rightarrow> nat option \<Rightarrow> 'u manager
     \<Rightarrow> (error option \<times> 'u manager) option" where
  "add_literal prep key reqs u cb st =
     add prep key (fst (new_definition reqs u cb st)) (snd (new_definition reqs u cb st))"

text \<open>A sequence of calls \<open>add(key, {...})\<close> with object literals; an error ends it.\<close>

fun add_literals ::
  "('u \<Rightarrow> bool \<times> 'u) \<Rightarrow> (string \<times> string list option \<times> 'u option \<times> nat option) list \<Rightarrow> 'u manager
     \<Rightarrow> (error option \<times> 'u manager) option" where
  "add_literals prep [] st = Some (None, st)"
| "add_literals prep ((k, reqs, u, cb) # calls) st =
     (case add_literal prep k reqs u cb st of
        None \<Rightarrow> None
      | Some (Some e, st') \<Rightarrow> Some (Some e, st')
      | Some (None, st') \<Rightarrow> add_literals prep calls st')"

text \<open>
  \<open>add(object)\<close>: one \<open>add\<close> per own property, in property order (lines 651 to 656);
  an error ends the call.
\<close>

fun add_all ::
  "('u \<Rightarrow> bool \<times> 'u) \<Rightarrow> (string \<times> dref) list \<Rightarrow> 'u manager \<Rightarrow> (error option \<times> 'u manager) option" where
  "add_all prep [] st = Some (None, st)"
| "add_all prep ((k, d) # kds) st =
     (case add prep k d st of
        None \<Rightarrow> None
      | Some (Some e, st') \<Rightarrow> Some (Some e, st')
      | Some (None, st') \<Rightarrow> add_all prep kds st')"

text \<open>The manager as the constructor leaves it, over a given provider and contexts.\<close>

definition new_manager :: "provider \<Rightarrow> nat list \<Rightarrow> 'u manager" where
  "new_manager p cs =
     \<lparr>definitions = Map.empty, arrays = [], objects = [], uis = [], listeners = [],
      contexts = cs, profiles = [], profile_ids = Map.empty, heap = [], provider = p,
      provider_ready = True, update_timer = None, pending_timers = [], next_timer = 1,
      trace = []\<rparr>"

text \<open>
  The address of the \<open>required_by\<close> array an entry carries, and the contents of the
  \<open>required_by\<close> list associated with a key, if the key has an entry with such a list.
\<close>

definition array_of :: "'u manager \<Rightarrow> entry \<Rightarrow> aref option" where
  "array_of st e =
     (case e of Placeholder r \<Rightarrow> Some r | Definition ob \<Rightarrow> required_by (objects st ! ob))"

definition required_by_of :: "'u manager \<Rightarrow> string \<Rightarrow> string list option" where
  "required_by_of st k =
     (case definitions st k of
        None \<Rightarrow> None
      | Some e \<Rightarrow> map_option (\<lambda>r. arrays st ! r) (array_of st e))"

text \<open>The contents of the \<open>requires\<close> array of the object at an address.\<close>

definition requires_of :: "'u manager \<Rightarrow> dref \<Rightarrow> string list" where
  "requires_of st d =
     (case requires_arr (objects st ! d) of None \<Rightarrow> [] | Some ra \<Rightarrow> arrays st ! ra)"

text \<open>
  A registry in which nothing is shared between keys: every entry carries an allocated
  \<open>required_by\<close> array, every stored definition object is allocated, and no two keys
  carry the same array (so no object is stored under two keys).
\<close>

definition registry_ok :: "'u manager \<Rightarrow> bool" where
  "registry_ok st \<longleftrightarrow>
     (\<forall>k e. definitions st k = Some e \<longrightarrow>
        (\<exists>r. array_of st e = Some r \<and> r < length (arrays st))) \<and>
     (\<forall>k ob. definitions st k = Some (Definition ob) \<longrightarrow> ob < length (objects st)) \<and>
     (\<forall>k k' e e'. definitions st k = Some e \<and> definitions st k' = Some e' \<and>
        array_of st e = array_of st e' \<longrightarrow> k = k')"

text \<open>
  The array chosen as \<open>required_by\<close>, the array the loop reads, and the manager at the
  start of the loop.
\<close>

definition chosen :: "string \<Rightarrow> 'u manager \<Rightarrow> aref option" where
  "chosen key st = fst (choose_required_by key st)"

definition loop_array :: "string \<Rightarrow> dref \<Rightarrow> 'u manager \<Rightarrow> aref" where
  "loop_array key d st =
     fst (ensure_requires d (set_required_by d (chosen key st) (snd (choose_required_by key st))))"

definition prepare :: "string \<Rightarrow> dref \<Rightarrow> 'u manager \<Rightarrow> 'u manager" where
  "prepare key d st =
     snd (ensure_requires d (set_required_by d (chosen key st) (snd (choose_required_by key st))))"

text \<open>The loop as a fold over the keys it reads, for an array that the loop does not touch.\<close>

definition edge_step :: "string \<Rightarrow> 'u manager \<Rightarrow> string \<Rightarrow> 'u manager" where
  "edge_step key st req_key = snd (add_edge key st req_key)"

text \<open>An allocated array that no entry of the registry carries.\<close>

definition unreferenced :: "aref \<Rightarrow> 'u manager \<Rightarrow> bool" where
  "unreferenced r st \<longleftrightarrow>
     r < length (arrays st) \<and> (\<forall>k e. definitions st k = Some e \<longrightarrow> array_of st e \<noteq> Some r)"

text \<open>
  An object the caller has made for this registration: it is allocated, it is not
  stored in the registry, and its \<open>requires\<close> array, if it has one, is allocated and is
  not an array of the registry.
\<close>

definition fresh_definition :: "dref \<Rightarrow> 'u manager \<Rightarrow> bool" where
  "fresh_definition d st \<longleftrightarrow>
     d < length (objects st) \<and>
     (\<forall>k. definitions st k \<noteq> Some (Definition d)) \<and>
     (case requires_arr (objects st ! d) of None \<Rightarrow> True | Some ra \<Rightarrow> unreferenced ra st)"

text \<open>The normalisation of the descriptor of the object at \<open>d\<close>, if it has one, does not throw.\<close>

definition ui_accepted :: "('u \<Rightarrow> bool \<times> 'u) \<Rightarrow> dref \<Rightarrow> 'u manager \<Rightarrow> bool" where
  "ui_accepted prep d st \<longleftrightarrow>
     (case ui (objects st ! d) of None \<Rightarrow> True | Some u \<Rightarrow> \<not> fst (prep (uis st ! u)))"

text \<open>No \<open>requires\<close> array of a stored definition is an array of the registry.\<close>

definition requires_sealed :: "'u manager \<Rightarrow> bool" where
  "requires_sealed st \<longleftrightarrow>
     (\<forall>k ob ra. definitions st k = Some (Definition ob) \<and>
        requires_arr (objects st ! ob) = Some ra \<longrightarrow> unreferenced ra st)"

text \<open>
  The edges of the registry between two different keys: a key required by the
  definition registered under \<open>D\<close> lists \<open>D\<close> in its \<open>required_by\<close>.
\<close>

definition edges_ok :: "'u manager \<Rightarrow> bool" where
  "edges_ok st \<longleftrightarrow>
     (\<forall>D ob K. definitions st D = Some (Definition ob) \<and> K \<in> set (requires_of st ob) \<and> K \<noteq> D
        \<longrightarrow> (\<exists>rb. required_by_of st K = Some rb \<and> D \<in> set rb))"

text \<open>A normalisation that never throws and leaves the descriptor as it is.\<close>

definition accept :: "nat \<Rightarrow> bool \<times> nat" where
  "accept u = (False, u)"

text \<open>One call after another: an error, or a call that does not return, ends the sequence.\<close>

definition and_then ::
  "(error option \<times> 'u manager) option \<Rightarrow> ('u manager \<Rightarrow> (error option \<times> 'u manager) option)
     \<Rightarrow> (error option \<times> 'u manager) option" where
  "and_then r f = (case r of Some (None, st) \<Rightarrow> f st | _ \<Rightarrow> r)"



subsection \<open>Property keys\<close>

text \<open>
  \<open>this.__profile_ids\<close> is a plain object: its keys are strings, and a number used as
  a key is coerced to its decimal notation (the comment at lines 463 to 466 says so).
  \<open>to_key\<close> is that coercion for an integer. The keys that \<open>createProfile\<close>,
  \<open>deleteProfile\<close> and \<open>loadProfiles\<close> read are decimal numerals or the text
  \<open>[object Object]\<close>, never a name that \<open>Object.prototype\<close> has, so their reads are
  reads of own properties.
\<close>

fun string_of_nat :: "nat \<Rightarrow> string" where
  "string_of_nat n =
     (if n < 10 then [char_of (48 + n)]
      else string_of_nat (n div 10) @ [char_of (48 + n mod 10)])"

definition to_key :: "int \<Rightarrow> string" where
  "to_key i = (if i < 0 then CHR ''-'' # string_of_nat (nat (- i)) else string_of_nat (nat i))"


text \<open>
  \<open>Array.prototype.indexOf\<close> and \<open>String.prototype.indexOf\<close>: the first position of an
  element, \<open>None\<close> for the result \<open>-1\<close>.
\<close>

fun indexOf :: "'a list \<Rightarrow> 'a \<Rightarrow> nat option" where
  "indexOf [] x = None"
| "indexOf (y # ys) x = (if y = x then Some 0 else map_option Suc (indexOf ys x))"

text \<open>JavaScript truthiness of an optional string: missing and empty are falsy.\<close>

definition truthy :: "string option \<Rightarrow> bool" where
  "truthy s \<longleftrightarrow> s \<noteq> None \<and> s \<noteq> Some []"

subsection \<open>Saving the profile list: \<open>_saveProfiles\<close>\<close>

text \<open>The instance at an address, and \<open>this.__profiles.map(prof => prof.data)\<close>.\<close>

definition deref :: "'u manager \<Rightarrow> pref \<Rightarrow> profile" where
  "deref st r = heap st ! r"

definition profile_blobs :: "'u manager \<Rightarrow> profile_data list" where
  "profile_blobs st = map (\<lambda>r. data (deref st r)) (profiles st)"

text \<open>Lines 626 to 630: persist the list, then \<open>selectProfiles()\<close> on every context.\<close>

definition saveProfiles :: "'u manager \<Rightarrow> 'u manager" where
  "saveProfiles st =
     st\<lparr>provider := provider_set ''profiles'' (Profile_blobs (profile_blobs st)) (provider st),
        trace := trace st @ map Select_profiles (contexts st)\<rparr>"

subsection \<open>Creating a profile: \<open>createProfile\<close>\<close>

text \<open>
  \<open>let i = 0; while( this.__profile_ids[i] ) i++;\<close> (lines 546 to 548), from a given
  start. The loop has no bound of its own, so it is a partial function: \<open>None\<close> means
  that it does not return.
\<close>

partial_function (option) first_free :: "(string \<rightharpoonup> pref) \<Rightarrow> nat \<Rightarrow> nat option" where
  "first_free ids i =
     (if ids (to_key (int i)) \<noteq> None then first_free ids (Suc i) else Some i)"

declare first_free.simps [code]

text \<open>\<open>options || {}\<close>: the fields of an empty options object are all missing.\<close>

definition empty_options :: profile_data where
  "empty_options = \<lparr>data_id = 0, data_name = None, data_context = None, data_url = None\<rparr>"

text \<open>
  Lines 545 to 563. The result is the manager after the call and the new instance;
  \<open>None\<close> when the search for an id does not return.
\<close>

definition createProfile ::
  "profile_data option \<Rightarrow> 'u manager \<Rightarrow> ('u manager \<times> pref) option" where
  "createProfile options st =
     (case first_free (profile_ids st) 0 of
        None \<Rightarrow> None
      | Some i \<Rightarrow>
          let opts = (case options of None \<Rightarrow> empty_options | Some ob \<Rightarrow> ob);
              opts1 = opts\<lparr>data_id := int i\<rparr>;
              opts2 = (if \<not> truthy (data_name opts1)
                       then opts1\<lparr>data_name := Some (''Unnamed Profile '' @ to_key (int i))\<rparr>
                       else opts1);
              r = length (heap st);
              st1 = st\<lparr>heap := heap st @ [new_SettingsProfile opts2],
                       profile_ids := (profile_ids st)(to_key (int i) \<mapsto> r),
                       profiles := r # profiles st\<rparr>;
              st2 = saveProfiles st1
          in Some (st2\<lparr>trace := trace st2 @ [Profile_created r]\<rparr>, r))"


subsection \<open>Deleting a profile: \<open>deleteProfile\<close>\<close>

text \<open>
  The argument of \<open>deleteProfile\<close> is an id or a profile instance (line 568). Lines 571
  and 572 replace an instance by its id when that id is truthy; an instance whose id is
  \<open>0\<close> stays an object, and as a property key an object is the string
  \<open>[object Object]\<close>.
\<close>

datatype profile_arg = By_id int | By_profile pref

definition resolve :: "'u manager \<Rightarrow> profile_arg \<Rightarrow> string" where
  "resolve st a =
     (case a of
        By_id i \<Rightarrow> to_key i
      | By_profile r \<Rightarrow>
          (if data_id (data (deref st r)) \<noteq> 0 then to_key (data_id (data (deref st r)))
           else ''[object Object]''))"

text \<open>The key prefix \<open>p:<id>:\<close> of a profile, and \<open>String.prototype.startsWith\<close>.\<close>

definition profile_prefix :: "int \<Rightarrow> string" where
  "profile_prefix i = ''p:'' @ to_key i @ '':''"

definition starts_with :: "string \<Rightarrow> string \<Rightarrow> bool" where
  "starts_with s p \<longleftrightarrow> take (length p) s = p"

text \<open>
  Modelled from the spec: \<open>SettingsProfile.clear()\<close> (\<^verbatim>\<open>./profile\<close>, not under src/)
  erases all profile-scoped stored overrides for this profile's key prefix, that is
  every provider key that starts with \<open>p:<id>:\<close>.
\<close>

definition clear :: "int \<Rightarrow> provider \<Rightarrow> provider" where
  "clear i p = filter (\<lambda>(k, _). \<not> starts_with k (profile_prefix i)) p"

text \<open>
  Lines 570 to 590. The result is the error thrown, if any, and the manager after the
  call. \<open>this.__profile_ids[id] = null\<close> leaves a falsy value under the key; every read
  of the id map only tests the value for truthiness, so the key is removed here.
\<close>

definition deleteProfile :: "profile_arg \<Rightarrow> 'u manager \<Rightarrow> error option \<times> 'u manager" where
  "deleteProfile a st =
     (let key = resolve st a in
      case profile_ids st key of
        None \<Rightarrow> (None, st)
      | Some r \<Rightarrow>
          if data_id (data (deref st r)) = 0 then (Some Cannot_delete_default, st)
          else
            let st1 = st\<lparr>provider := clear (data_id (data (deref st r))) (provider st),
                         profile_ids := (profile_ids st)(key := None)\<rparr>;
                st2 = (case indexOf (profiles st1) r of
                         None \<Rightarrow> st1
                       | Some idx \<Rightarrow>
                           st1\<lparr>profiles := take idx (profiles st1) @ drop (Suc idx) (profiles st1)\<rparr>);
                st3 = saveProfiles st2
            in (None, st3\<lparr>trace := trace st3 @ [Profile_deleted r]\<rparr>))"

subsection \<open>Loading the profile list: \<open>loadProfiles\<close>\<close>

text \<open>
  The constants \<open>SettingsProfile.Moderation\<close> and \<open>SettingsProfile.Default\<close> are not
  under src/; the operations that read them take them as the parameters \<open>Moderation\<close>
  and \<open>Default\<close>.
\<close>

text \<open>
  Lines 491 to 497: a context of the old format (truthy and not an array) becomes the
  context of the Moderation profile when its \<open>moderator\<close> is truthy, and \<open>null\<close>
  otherwise.
\<close>

definition patch_context :: "profile_data \<Rightarrow> profile_data \<Rightarrow> profile_data" where
  "patch_context Moderation pd =
     (case data_context pd of
        Some (Legacy m) \<Rightarrow>
          pd\<lparr>data_context := (if m then data_context Moderation else None)\<rparr>
      | _ \<Rightarrow> pd)"

text \<open>
  Modelled from the spec: \<open>deep_equals\<close> (\<^verbatim>\<open>utilities/object\<close>, not under src/) holds
  when the full data of the two blobs is deep-equal.
\<close>

definition deep_equals :: "profile_data \<Rightarrow> profile_data \<Rightarrow> bool" where
  "deep_equals a b \<longleftrightarrow> a = b"

text \<open>A JavaScript \<open>Set\<close> of ids, in insertion order.\<close>

definition set_add :: "int \<Rightarrow> int list \<Rightarrow> int list" where
  "set_add i s = (if i \<in> set s then s else s @ [i])"

definition set_delete :: "int \<Rightarrow> int list \<Rightarrow> int list" where
  "set_delete i s = filter (\<lambda>j. j \<noteq> i) s"

text \<open>The local variables of \<open>loadProfiles\<close> that its loop changes.\<close>

record 'u load_state =
  mgr :: "'u manager"
  old_ids :: "int list"
  new_ids :: "int list"
  changed_ids :: "int list"
  reordered :: bool
  changed_flag :: bool

text \<open>
  One iteration of \<open>for(const profile_data of raw_profiles)\<close> (lines 480 to 521).
  \<open>old_slot_id\<close> is \<open>None\<close> for \<open>-1\<close>. A replaced instance hands its listeners to the
  new one and keeps none.
\<close>

definition load_step ::
  "profile_data \<Rightarrow> pref list \<Rightarrow> (string \<rightharpoonup> pref) \<Rightarrow> 'u load_state \<Rightarrow> profile_data
     \<Rightarrow> 'u load_state" where
  "load_step Moderation old_profiles old_profile_ids ls profile_data =
     (let st = mgr ls;
          ident = data_id profile_data;
          slot_id = length (profiles st);
          old_profile = old_profile_ids (to_key ident);
          old_slot_id = (case old_profile of None \<Rightarrow> None | Some r \<Rightarrow> indexOf old_profiles r);
          ls1 = ls\<lparr>old_ids := set_delete ident (old_ids ls),
                   reordered := (reordered ls \<or> old_slot_id \<noteq> Some slot_id)\<rparr>;
          pd = patch_context Moderation profile_data;
          fresh = length (heap st)
      in case old_profile of
           Some r \<Rightarrow>
             if deep_equals (data (deref st r)) pd then
               ls1\<lparr>mgr := st\<lparr>profile_ids := (profile_ids st)(to_key ident \<mapsto> r),
                              profiles := profiles st @ [r]\<rparr>,
                   changed_flag := (changed_flag ls \<or> old_slot_id \<noteq> Some slot_id)\<rparr>
             else
               ls1\<lparr>mgr := st\<lparr>heap := (heap st @
                                 [(new_SettingsProfile pd)
                                    \<lparr>profile_listeners := profile_listeners (deref st r)\<rparr>])
                                 [r := (deref st r)\<lparr>profile_listeners := []\<rparr>],
                              profile_ids := (profile_ids st)(to_key ident \<mapsto> fresh),
                              profiles := profiles st @ [fresh]\<rparr>,
                   changed_ids := set_add ident (changed_ids ls),
                   changed_flag := True\<rparr>
         | None \<Rightarrow>
             ls1\<lparr>mgr := st\<lparr>heap := heap st @ [new_SettingsProfile pd],
                            profile_ids := (profile_ids st)(to_key ident \<mapsto> fresh),
                            profiles := profiles st @ [fresh]\<rparr>,
                 new_ids := set_add ident (new_ids ls),
                 changed_flag := True\<rparr>)"

text \<open>
  The events of lines 529 to 533, one per id of a set, with the instance the id map
  holds for the id (the loop has entered every such id in the map).
\<close>

definition emit_for :: "(pref \<Rightarrow> effect) \<Rightarrow> 'u manager \<Rightarrow> int list \<Rightarrow> effect list" where
  "emit_for ev st ids = List.map_filter (\<lambda>i. map_option ev (profile_ids st (to_key i))) ids"

text \<open>
  Lines 456 to 537. \<open>provider.get('profiles', [Moderation, Default])\<close> is the stored
  list, or the two built-in blobs when the key is missing; a stored value that is not a
  list of blobs is outside the data model and stops the call (after the two fields were
  reset).
\<close>

definition loadProfiles ::
  "profile_data \<Rightarrow> profile_data \<Rightarrow> bool \<Rightarrow> 'u manager \<Rightarrow> error option \<times> 'u manager" where
  "loadProfiles Moderation Default suppress_events st =
     (let old_profile_ids = profile_ids st;
          old_profiles = profiles st;
          st0 = st\<lparr>profile_ids := Map.empty, profiles := []\<rparr>;
          ids0 = foldl (\<lambda>s r. set_add (data_id (data (deref st r))) s) [] old_profiles
      in case provider_get (provider st) ''profiles'' of
           Some (Plain _) \<Rightarrow> (Some Not_iterable, st0)
         | raw \<Rightarrow>
             let raw_profiles =
                   (case raw of Some (Profile_blobs ps) \<Rightarrow> ps | _ \<Rightarrow> [Moderation, Default]);
                 ls = foldl (load_step Moderation old_profiles old_profile_ids)
                        \<lparr>mgr = st0, old_ids = ids0, new_ids = [], changed_ids = [],
                         reordered = False, changed_flag = False\<rparr> raw_profiles;
                 st1 = mgr ls
             in if (\<not> changed_flag ls \<and> old_ids ls = []) \<or> suppress_events then (None, st1)
                else (None, st1\<lparr>trace := trace st1 @ map Select_profiles (contexts st1) @
                        emit_for Profile_created st1 (new_ids ls) @
                        emit_for Profile_changed st1 (changed_ids ls) @
                        (if reordered ls then [Profiles_reordered] else [])\<rparr>))"

text \<open>
  Every reference of the manager points to an allocated instance. (In the program a
  reference cannot dangle; in the model this is a condition on the record.)
\<close>

definition refs_ok :: "'u manager \<Rightarrow> bool" where
  "refs_ok st \<longleftrightarrow>
     (\<forall>k r. profile_ids st k = Some r \<longrightarrow> r < length (heap st)) \<and>
     (\<forall>r \<in> set (profiles st). r < length (heap st))"

text \<open>A blob whose context is not of the old format.\<close>

definition new_format :: "profile_data \<Rightarrow> bool" where
  "new_format pd \<longleftrightarrow> (case data_context pd of Some (Legacy _) \<Rightarrow> False | _ \<Rightarrow> True)"

text \<open>The stored list or the built-in one, and the loop of \<open>loadProfiles\<close> from its initial locals.\<close>

definition raw_list :: "profile_data \<Rightarrow> profile_data \<Rightarrow> pvalue option \<Rightarrow> profile_data list" where
  "raw_list M D raw = (case raw of Some (Profile_blobs ps) \<Rightarrow> ps | _ \<Rightarrow> [M, D])"

definition load_loop :: "profile_data \<Rightarrow> profile_data list \<Rightarrow> 'u manager \<Rightarrow> 'u load_state" where
  "load_loop M raw st =
     foldl (load_step M (profiles st) (profile_ids st))
       \<lparr>mgr = st\<lparr>profile_ids := Map.empty, profiles := []\<rparr>,
        old_ids = foldl (\<lambda>s r. set_add (data_id (data (deref st r))) s) [] (profiles st),
        new_ids = [], changed_ids = [], reordered = False, changed_flag = False\<rparr> raw"

text \<open>The references a run of the loop relies on: those of the old id map and of the new list.\<close>

definition step_ok :: "(string \<rightharpoonup> pref) \<Rightarrow> 'u load_state \<Rightarrow> bool" where
  "step_ok oids ls \<longleftrightarrow>
     (\<forall>k r. oids k = Some r \<longrightarrow> r < length (heap (mgr ls))) \<and>
     (\<forall>r \<in> set (profiles (mgr ls)). r < length (heap (mgr ls)))"

text \<open>
  The key of an instance in the id map, and a manager in which every listed instance
  occurs once in the list and is the value of its key.
\<close>

definition key_of :: "'u manager \<Rightarrow> pref \<Rightarrow> string" where
  "key_of st r = to_key (data_id (data (deref st r)))"

definition in_sync :: "'u manager \<Rightarrow> bool" where
  "in_sync st \<longleftrightarrow>
     distinct (profiles st) \<and>
     (\<forall>r \<in> set (profiles st). profile_ids st (key_of st r) = Some r)"

text \<open>
  The locals of \<open>loadProfiles\<close> after the loop has passed the instances \<open>pre\<close> of such a
  manager.
\<close>

definition reloaded :: "'u manager \<Rightarrow> int list \<Rightarrow> pref list \<Rightarrow> 'u load_state" where
  "reloaded st ids pre =
     \<lparr>mgr = st\<lparr>profile_ids := profile_ids st |` (key_of st ` set pre), profiles := pre\<rparr>,
      old_ids = filter (\<lambda>i. i \<notin> (\<lambda>r. data_id (data (deref st r))) ` set pre) ids,
      new_ids = [], changed_ids = [], reordered = False, changed_flag = False\<rparr>"

subsection \<open>Changes reported by the provider: \<open>_onProviderChange\<close>\<close>

text \<open>
  \<open>this.__profile_ids\<close> is created as \<open>{}\<close> (lines 263 and 460), so a read of a key that
  is not an own property finds what \<open>Object.prototype\<close> has under that name: a function,
  or the prototype object itself for \<open>__proto__\<close>, all truthy and none a profile.
\<close>

definition object_prototype_names :: "string list" where
  "object_prototype_names =
     [''constructor'', ''__proto__'', ''hasOwnProperty'', ''isPrototypeOf'',
      ''propertyIsEnumerable'', ''toLocaleString'', ''toString'', ''valueOf'',
      ''__defineGetter__'', ''__defineSetter__'', ''__lookupGetter__'', ''__lookupSetter__'']"

datatype 'a lookup = Undefined | Own 'a | Inherited

definition get_prop :: "(string \<rightharpoonup> 'a) \<Rightarrow> string \<Rightarrow> 'a lookup" where
  "get_prop ob k =
     (case ob k of
        Some v \<Rightarrow> Own v
      | None \<Rightarrow> if k \<in> set object_prototype_names then Inherited else Undefined)"

text \<open>
  Lines 404 to 425. \<open>loadProfiles()\<close> is called without an argument, so
  \<open>suppress_events\<close> is falsy. The id part of the key is any text; when the read of
  line 420 finds an inherited value, \<open>profile\<close> is truthy and \<open>profile.emit\<close> is not a
  function, so line 424 throws a \<open>TypeError\<close>.
\<close>

definition onProviderChange ::
  "profile_data \<Rightarrow> profile_data \<Rightarrow> string \<Rightarrow> pvalue \<Rightarrow> bool \<Rightarrow> 'u manager
     \<Rightarrow> error option \<times> 'u manager" where
  "onProviderChange Moderation Default key new_value deleted st =
     (if key = ''profiles'' then loadProfiles Moderation Default False st
      else if \<not> starts_with key ''p:'' then (None, st)
      else
        let key1 = drop 2 key in
        case indexOf key1 CHR '':'' of
          None \<Rightarrow> (None, st)
        | Some idx \<Rightarrow>
            (case get_prop (profile_ids st) (take idx key1) of
               Undefined \<Rightarrow> (None, st)
             | Inherited \<Rightarrow> (Some Type_error, st)
             | Own r \<Rightarrow>
                 (None, st\<lparr>trace := trace st @
                          [Changed_on r (drop (Suc idx) key1) new_value deleted]\<rparr>)))"

subsection \<open>Example states\<close>

text \<open>
  A manager with one context and the profiles 2 and 0, in this order, as it is after
  loading them from the provider; the provider also holds two overrides.
\<close>

definition blob_0 :: profile_data where
  "blob_0 = \<lparr>data_id = 0, data_name = Some ''Default'', data_context = None, data_url = None\<rparr>"

definition blob_2 :: profile_data where
  "blob_2 = \<lparr>data_id = 2, data_name = Some ''Two'', data_context = Some (Rules [''Moderator'']),
              data_url = Some ''https://example.org/two.json''\<rparr>"

definition ids_0_2 :: "nat manager" where
  "ids_0_2 = (new_manager [(''profiles'', Profile_blobs [blob_2, blob_0]),
                            (''p:2:chat.lines'', Plain (JNum 7)),
                            (''p:0:chat.lines'', Plain (JNum 9))] [0])
     \<lparr>profiles := [1, 0],
      profile_ids := [''0'' \<mapsto> 0, ''2'' \<mapsto> 1],
      heap := [new_SettingsProfile blob_0, new_SettingsProfile blob_2]\<rparr>"

text \<open>Two blobs to stand for the built-in profiles.\<close>

definition moderation_blob :: profile_data where
  "moderation_blob = \<lparr>data_id = 1, data_name = Some ''Moderation'',
       data_context = Some (Rules [''Moderator'']), data_url = None\<rparr>"

definition default_blob :: profile_data where
  "default_blob = \<lparr>data_id = 0, data_name = Some ''Default Profile'', data_context = None,
       data_url = None\<rparr>"

text \<open>A manager whose only profile was created with a context of the old format.\<close>

definition legacy_options :: profile_data where
  "legacy_options = \<lparr>data_id = 0, data_name = Some ''Mods'',
       data_context = Some (Legacy True), data_url = None\<rparr>"

definition legacy_state :: "nat manager" where
  "legacy_state = (new_manager [(''profiles'', Profile_blobs [legacy_options])] [0])
     \<lparr>profiles := [0],
      profile_ids := [''0'' \<mapsto> 0],
      heap := [new_SettingsProfile legacy_options],
      trace := [Select_profiles 0, Profile_created 0]\<rparr>"

subsection \<open>Backup: \<open>getFullBackup\<close>\<close>

text \<open>
  An \<open>async\<close> function is suspended at \<open>await this.provider.awaitReady()\<close> until the
  provider is ready; its promise is then resolved with the returned object.
\<close>

datatype 'a promise = Pending | Resolved 'a

text \<open>
  \<open>values\<close> is created as \<open>{}\<close> (line 342); the model holds its own properties (the
  order in which a JavaScript object lists its keys is not part of it).
\<close>

record backup =
  version :: nat
  backup_type :: string
  backup_values :: "string \<rightharpoonup> pvalue"

text \<open>
  \<open>out.values[k] = v\<close> (line 346) makes or replaces the own property \<open>k\<close>, except for
  \<open>__proto__\<close>: that name is an accessor of \<open>Object.prototype\<close>, and the assignment
  calls its setter, which changes the prototype of the object or does nothing and makes
  no own property.
\<close>

definition assign :: "(string \<rightharpoonup> pvalue) \<Rightarrow> string \<Rightarrow> pvalue \<Rightarrow> (string \<rightharpoonup> pvalue)" where
  "assign ob k v = (if k = ''__proto__'' then ob else ob(k \<mapsto> v))"

text \<open>Lines 335 to 349: one assignment for every pair of \<open>entries()\<close>, in order.\<close>

definition getFullBackup :: "'u manager \<Rightarrow> backup promise" where
  "getFullBackup st =
     (if provider_ready st
      then Resolved \<lparr>version = 2, backup_type = ''full'',
             backup_values = foldl (\<lambda>out (k, v). assign out k v) Map.empty (provider st)\<rparr>
      else Pending)"

text \<open>A manager whose provider holds a value under the key \<open>__proto__\<close>.\<close>

definition proto_state :: "nat manager" where
  "proto_state = new_manager [(''__proto__'', Plain (JNum 1)), (''theme'', Plain (JStr ''dark''))] []"

subsection \<open>The update sweep: \<open>scheduleUpdates\<close> and \<open>checkUpdates\<close>\<close>

text \<open>
  The timers of the page that this manager has armed are the list \<open>pending_timers\<close> of
  handles and delays (in milliseconds); \<open>setTimeout\<close> returns a handle that was never
  used, \<open>clearTimeout\<close> removes a handle from the list.
\<close>

definition clearTimeout :: "nat \<Rightarrow> 'u manager \<Rightarrow> 'u manager" where
  "clearTimeout h st = st\<lparr>pending_timers := filter (\<lambda>(h', _). h' \<noteq> h) (pending_timers st)\<rparr>"

definition setTimeout :: "nat \<Rightarrow> 'u manager \<Rightarrow> nat \<times> 'u manager" where
  "setTimeout delay st =
     (next_timer st,
      st\<lparr>pending_timers := pending_timers st @ [(next_timer st, delay)],
         next_timer := Suc (next_timer st)\<rparr>)"

text \<open>Lines 352 to 357. A handle is truthy when it is not \<open>0\<close>.\<close>

definition scheduleUpdates :: "'u manager \<Rightarrow> 'u manager" where
  "scheduleUpdates st =
     (let st1 = (case update_timer st of
                   Some h \<Rightarrow> if h \<noteq> 0 then clearTimeout h st else st
                 | None \<Rightarrow> st);
          (h, st2) = setTimeout 5000 st1
      in st2\<lparr>update_timer := Some h\<rparr>)"

text \<open>
  Lines 360 to 378. Modelled from the spec: \<open>checkUpdate()\<close> of a profile
  (\<^verbatim>\<open>./profile\<close>, not under src/) returns a truthy result on a successful refresh and a
  falsy one otherwise, and swallows its failures; \<open>refreshed r\<close> is the truthiness of the
  result for the instance \<open>r\<close>. The sweep calls it on the profiles whose \<open>url\<close> is truthy,
  in list order, and logs the number of truthy results and the number of calls once all
  results are in.
\<close>

definition has_url :: "'u manager \<Rightarrow> pref \<Rightarrow> bool" where
  "has_url st r \<longleftrightarrow> truthy (data_url (data (deref st r)))"

definition checkUpdates :: "(pref \<Rightarrow> bool) \<Rightarrow> 'u manager \<Rightarrow> 'u manager" where
  "checkUpdates refreshed st =
     (let called = filter (has_url st) (profiles st)
      in st\<lparr>trace := trace st @ map Check_update called @
            [Log_refreshed (length (filter refreshed called)) (length called)]\<rparr>)"

text \<open>The timer with the handle \<open>h\<close> fires: it leaves the list and its callback runs.\<close>

definition fire :: "(pref \<Rightarrow> bool) \<Rightarrow> nat \<Rightarrow> 'u manager \<Rightarrow> 'u manager" where
  "fire refreshed h st =
     (if h \<in> fst ` set (pending_timers st) then checkUpdates refreshed (clearTimeout h st)
      else st)"

text \<open>
  The timers of a manager that arms them through \<open>scheduleUpdates\<close> only: none is
  pending, or the one whose handle \<open>_update_timer\<close> holds; handles are positive and below
  the next one.
\<close>

definition timers_ok :: "'u manager \<Rightarrow> bool" where
  "timers_ok st \<longleftrightarrow>
     0 < next_timer st \<and>
     (pending_timers st = [] \<or>
      (\<exists>h. update_timer st = Some h \<and> 0 < h \<and> h < next_timer st \<and>
           pending_timers st = [(h, 5000)]))"


section \<open>The definition registry\<close>

lemma add_edge_cases:
  "add_edge key st rk =
     (case definitions st rk of
        None \<Rightarrow> (None, st\<lparr>definitions := (definitions st)(rk \<mapsto> Placeholder (length (arrays st))),
                   arrays := arrays st @ [[key]]\<rparr>)
      | Some e \<Rightarrow>
          (case array_of st e of
             None \<Rightarrow> (Some Type_error, st)
           | Some r \<Rightarrow> (None, st\<lparr>arrays := push r key (arrays st)\<rparr>)))"
  by (simp add: add_edge_def array_of_def split: option.splits entry.splits)

lemma array_of_cong: "objects a = objects b \<Longrightarrow> array_of a e = array_of b e"
  by (cases e) (simp_all add: array_of_def)

lemma registry_okD1:
  "registry_ok st \<Longrightarrow> definitions st k = Some e \<Longrightarrow>
   \<exists>r. array_of st e = Some r \<and> r < length (arrays st)"
  unfolding registry_ok_def by blast

lemma registry_okD2:
  "registry_ok st \<Longrightarrow> definitions st k = Some e \<Longrightarrow> definitions st k' = Some e' \<Longrightarrow>
   array_of st e = array_of st e' \<Longrightarrow> k = k'"
  unfolding registry_ok_def by blast

lemma registry_okD3:
  "registry_ok st \<Longrightarrow> definitions st k = Some (Definition ob) \<Longrightarrow> ob < length (objects st)"
  unfolding registry_ok_def by blast

lemma registry_okI:
  assumes "\<And>k e. definitions st k = Some e \<Longrightarrow> \<exists>r. array_of st e = Some r \<and> r < length (arrays st)"
    and "\<And>k ob. definitions st k = Some (Definition ob) \<Longrightarrow> ob < length (objects st)"
    and "\<And>k k' e e'. definitions st k = Some e \<Longrightarrow> definitions st k' = Some e' \<Longrightarrow>
           array_of st e = array_of st e' \<Longrightarrow> k = k'"
  shows "registry_ok st"
  unfolding registry_ok_def using assms by blast

lemma edge_step_objects: "objects (edge_step key st rk) = objects st"
  by (simp add: edge_step_def add_edge_cases split: option.splits)

lemma edge_step_array_of: "array_of (edge_step key st rk) e = array_of st e"
  by (rule array_of_cong) (rule edge_step_objects)

lemma add_edge_no_error: "registry_ok st \<Longrightarrow> fst (add_edge key st rk) = None"
  using registry_okD1 [of st rk]
  by (cases "definitions st rk") (auto simp: add_edge_cases)

lemma edge_step_unknown:
  assumes "definitions st rk = None"
  shows "edge_step key st rk =
     st\<lparr>definitions := (definitions st)(rk \<mapsto> Placeholder (length (arrays st))),
        arrays := arrays st @ [[key]]\<rparr>"
  using assms by (simp add: edge_step_def add_edge_cases)

lemma edge_step_known:
  assumes "definitions st rk = Some e" "array_of st e = Some r"
  shows "edge_step key st rk = st\<lparr>arrays := push r key (arrays st)\<rparr>"
  using assms by (simp add: edge_step_def add_edge_cases)

lemma edge_step_ok:
  assumes ok: "registry_ok st"
  shows "registry_ok (edge_step key st rk)"
proof (cases "definitions st rk")
  case None
  let ?st = "st\<lparr>definitions := (definitions st)(rk \<mapsto> Placeholder (length (arrays st))),
                   arrays := arrays st @ [[key]]\<rparr>"
  have ao: "array_of ?st e = array_of st e" for e by (rule array_of_cong) simp
  have b: "\<exists>r. array_of ?st e = Some r \<and> r < length (arrays ?st)"
    if "definitions ?st k = Some e" for k e
    using that registry_okD1 [OF ok, of k e]
    by (auto simp: ao less_Suc_eq array_of_def [of _ "Placeholder _"] split: if_splits)
  have o: "ob < length (objects ?st)" if "definitions ?st k = Some (Definition ob)" for k ob
    using that registry_okD3 [OF ok, of k ob] by (auto split: if_splits)
  have i: "k = k'" if "definitions ?st k = Some e" "definitions ?st k' = Some e'"
      "array_of ?st e = array_of ?st e'" for k k' e e'
    using that registry_okD1 [OF ok, of k e] registry_okD1 [OF ok, of k' e']
      registry_okD2 [OF ok, of k e k' e']
    by (auto simp: ao array_of_def [of _ "Placeholder _"] split: if_splits)
  have "registry_ok ?st" using b o i by (rule registry_okI)
  then show ?thesis using None by (simp add: edge_step_unknown)
next
  case (Some e)
  then obtain r where r: "array_of st e = Some r" using registry_okD1 [OF ok] by blast
  have "array_of (st\<lparr>arrays := push r key (arrays st)\<rparr>) x = array_of st x" for x
    by (rule array_of_cong) simp
  then have "registry_ok (st\<lparr>arrays := push r key (arrays st)\<rparr>)"
    using ok by (simp add: registry_ok_def push_def)
  then show ?thesis using Some r by (simp add: edge_step_known)
qed

lemma edge_step_keeps:
  assumes ok: "registry_ok st" and e: "definitions st k = Some e" and r: "array_of st e = Some r"
  shows "definitions (edge_step key st rk) k = Some e"
    and "arrays (edge_step key st rk) ! r = arrays st ! r @ (if rk = k then [key] else [])"
proof -
  have lt: "r < length (arrays st)" using registry_okD1 [OF ok e] r by simp
  show "definitions (edge_step key st rk) k = Some e"
  proof (cases "definitions st rk")
    case None
    then show ?thesis using e by (auto simp: edge_step_unknown)
  next
    case (Some e')
    then obtain r' where "array_of st e' = Some r'" using registry_okD1 [OF ok] by blast
    then show ?thesis using Some e by (simp add: edge_step_known)
  qed
  show "arrays (edge_step key st rk) ! r = arrays st ! r @ (if rk = k then [key] else [])"
  proof (cases "definitions st rk")
    case None
    then show ?thesis using lt e by (auto simp: edge_step_unknown nth_append)
  next
    case (Some e')
    then obtain r' where r': "array_of st e' = Some r'" using registry_okD1 [OF ok] by blast
    show ?thesis
    proof (cases "rk = k")
      case True
      then have "r' = r" using Some e r r' by simp
      then show ?thesis using True lt Some r' by (simp add: edge_step_known push_def)
    next
      case False
      then have "r' \<noteq> r" using registry_okD2 [OF ok e Some] r r' by auto
      then show ?thesis using False Some r' by (simp add: edge_step_known push_def)
    qed
  qed
qed

lemma edge_step_unreferenced:
  assumes "unreferenced r st"
  shows "unreferenced r (edge_step key st rk)" and "arrays (edge_step key st rk) ! r = arrays st ! r"
proof -
  have lt: "r < length (arrays st)" using assms by (simp add: unreferenced_def)
  have nr: "array_of st e \<noteq> Some r" if "definitions st k = Some e" for k e
    using assms that by (simp add: unreferenced_def)
  show "unreferenced r (edge_step key st rk)"
  proof (cases "definitions st rk")
    case None
    have "array_of (st\<lparr>definitions := (definitions st)(rk \<mapsto> Placeholder (length (arrays st))),
        arrays := arrays st @ [[key]]\<rparr>) x = array_of st x" for x
      by (rule array_of_cong) simp
    then show ?thesis
      unfolding edge_step_unknown [OF None] unreferenced_def
      using lt nr by (auto simp: array_of_def [of _ "Placeholder _"] split: if_splits)
  next
    case (Some e)
    show ?thesis
    proof (cases "array_of st e")
      case None
      then show ?thesis using Some assms by (simp add: edge_step_def add_edge_cases)
    next
      case (Some r')
      have "array_of (st\<lparr>arrays := push r' key (arrays st)\<rparr>) x = array_of st x" for x
        by (rule array_of_cong) simp
      then show ?thesis
        unfolding edge_step_known [OF \<open>definitions st rk = Some e\<close> Some] unreferenced_def
        using lt nr by (auto simp: push_def)
    qed
  qed
  show "arrays (edge_step key st rk) ! r = arrays st ! r"
  proof (cases "definitions st rk")
    case None
    then show ?thesis using lt by (simp add: edge_step_unknown nth_append)
  next
    case (Some e)
    show ?thesis
    proof (cases "array_of st e")
      case None
      then show ?thesis using Some by (simp add: edge_step_def add_edge_cases)
    next
      case (Some r')
      then have "r' \<noteq> r" using nr [OF \<open>definitions st rk = Some e\<close>] by auto
      then show ?thesis
        using Some \<open>definitions st rk = Some e\<close> by (simp add: edge_step_known push_def)
    qed
  qed
qed

lemma foldl_edge_step_objects: "objects (foldl (edge_step key) st rs) = objects st"
  by (induction rs arbitrary: st) (simp_all add: edge_step_objects)

lemma foldl_edge_step_array_of: "array_of (foldl (edge_step key) st rs) e = array_of st e"
  by (rule array_of_cong) (rule foldl_edge_step_objects)

lemma foldl_edge_step_ok: "registry_ok st \<Longrightarrow> registry_ok (foldl (edge_step key) st rs)"
  by (induction rs arbitrary: st) (simp_all add: edge_step_ok)

lemma foldl_edge_step_keeps:
  assumes "registry_ok st" "definitions st k = Some e" "array_of st e = Some r"
  shows "definitions (foldl (edge_step key) st rs) k = Some e \<and>
         arrays (foldl (edge_step key) st rs) ! r =
           arrays st ! r @ map (\<lambda>_. key) (filter (\<lambda>x. x = k) rs)"
  using assms
proof (induction rs arbitrary: st)
  case Nil
  then show ?case by simp
next
  case (Cons a rs)
  have ok: "registry_ok (edge_step key st a)" using Cons.prems(1) by (rule edge_step_ok)
  have d: "definitions (edge_step key st a) k = Some e"
    using Cons.prems by (rule edge_step_keeps(1))
  have ar: "arrays (edge_step key st a) ! r = arrays st ! r @ (if a = k then [key] else [])"
    using Cons.prems by (rule edge_step_keeps(2))
  have ao: "array_of (edge_step key st a) e = Some r"
    using Cons.prems(3) by (simp add: edge_step_array_of)
  show ?case using Cons.IH [OF ok d ao] ar by simp
qed

lemma foldl_edge_step_unreferenced:
  "unreferenced r st \<Longrightarrow>
   unreferenced r (foldl (edge_step key) st rs) \<and>
   arrays (foldl (edge_step key) st rs) ! r = arrays st ! r"
proof (induction rs arbitrary: st)
  case Nil
  then show ?case by simp
next
  case (Cons a rs)
  show ?case
    using Cons.IH [OF edge_step_unreferenced(1) [OF Cons.prems, of key a]]
      edge_step_unreferenced(2) [OF Cons.prems, of key a]
    by simp
qed

lemma add_loop_fold:
  assumes "registry_ok st" "unreferenced ra st" "i \<le> length (arrays st ! ra)"
  shows "add_loop key ra i st =
           Some (None, foldl (edge_step key) st (drop i (arrays st ! ra)))"
  using assms
proof (induction "length (arrays st ! ra) - i" arbitrary: i st)
  case 0
  then show ?case by (subst add_loop.simps) simp
next
  case (Suc n)
  let ?rk = "arrays st ! ra ! i"
  let ?st = "edge_step key st ?rk"
  have lt: "i < length (arrays st ! ra)" using Suc.hyps(2) by simp
  have ne: "fst (add_edge key st ?rk) = None" using Suc.prems(1) by (rule add_edge_no_error)
  have ok: "registry_ok ?st" using Suc.prems(1) by (rule edge_step_ok)
  have un: "unreferenced ra ?st" using Suc.prems(2) by (rule edge_step_unreferenced(1))
  have same: "arrays ?st ! ra = arrays st ! ra"
    using Suc.prems(2) by (rule edge_step_unreferenced(2))
  have n: "n = length (arrays ?st ! ra) - Suc i" using Suc.hyps(2) by (simp add: same)
  have le: "Suc i \<le> length (arrays ?st ! ra)" using lt by (simp add: same)
  have "add_loop key ra (Suc i) ?st =
      Some (None, foldl (edge_step key) ?st (drop (Suc i) (arrays st ! ra)))"
    using Suc.hyps(1) [OF n ok un le] by (simp add: same)
  moreover have "drop i (arrays st ! ra) = ?rk # drop (Suc i) (arrays st ! ra)"
    using lt by (simp add: Cons_nth_drop_Suc)
  ultimately show ?case
    using lt ne by (subst add_loop.simps) (simp add: edge_step_def)
qed

lemma chosen_eq:
  "chosen key st =
     (case definitions st key of None \<Rightarrow> Some (length (arrays st)) | Some e \<Rightarrow> array_of st e)"
  by (simp add: chosen_def choose_required_by_def array_of_def split: option.splits entry.splits)

lemma add_unfold:
  "add prep key d st =
     (case add_loop key (loop_array key d st) 0 (prepare key d st) of
        None \<Rightarrow> None
      | Some (Some e, st4) \<Rightarrow> Some (Some e, st4)
      | Some (None, st4) \<Rightarrow> Some (finish_add prep key d st4))"
  by (simp add: add_def loop_array_def prepare_def chosen_def Let_def split_beta)

lemma loop_array_eq:
  "loop_array key d st =
     (case requires_arr (objects st ! d) of
        Some ra \<Rightarrow> ra
      | None \<Rightarrow> length (arrays st) + (if definitions st key = None then 1 else 0))"
  if "d < length (objects st)"
  using that
  by (simp add: loop_array_def ensure_requires_def set_required_by_def choose_required_by_def
      split: option.splits entry.splits)

lemma prepare_fields:
  assumes "d < length (objects st)"
  shows "definitions (prepare key d st) = definitions st"
    and "arrays (prepare key d st) =
           arrays st @ (if definitions st key = None then [[]] else []) @
             (if requires_arr (objects st ! d) = None then [[]] else [])"
    and "length (objects (prepare key d st)) = length (objects st)"
    and "ob \<noteq> d \<Longrightarrow> objects (prepare key d st) ! ob = objects st ! ob"
    and "required_by (objects (prepare key d st) ! d) = chosen key st"
    and "requires_arr (objects (prepare key d st) ! d) = Some (loop_array key d st)"
    and "ui (objects (prepare key d st) ! d) = ui (objects st ! d)"
    and "changed (objects (prepare key d st) ! d) = changed (objects st ! d)"
    and "uis (prepare key d st) = uis st"
    and "listeners (prepare key d st) = listeners st"
    and "trace (prepare key d st) = trace st"
  using assms
  by (simp_all add: loop_array_eq [OF assms] prepare_def ensure_requires_def set_required_by_def
        set_requires_def chosen_def choose_required_by_def
        split: option.splits entry.splits)

lemma fresh_definitionD:
  assumes "fresh_definition d st"
  shows "d < length (objects st)" and "definitions st k \<noteq> Some (Definition d)"
  using assms by (simp_all add: fresh_definition_def)

lemma prepare_array_of:
  assumes fr: "fresh_definition d st" and e: "definitions st k = Some e"
  shows "array_of (prepare key d st) e = array_of st e"
proof (cases e)
  case (Placeholder r)
  then show ?thesis by (simp add: array_of_def)
next
  case (Definition ob)
  then have "ob \<noteq> d" using e fresh_definitionD(2) [OF fr, of k] by auto
  then show ?thesis
    using Definition prepare_fields(4) [OF fresh_definitionD(1) [OF fr], of ob key]
    by (simp add: array_of_def)
qed

lemma prepare_old_arrays:
  assumes "d < length (objects st)" "r < length (arrays st)"
  shows "arrays (prepare key d st) ! r = arrays st ! r"
  using assms by (simp add: prepare_fields(2) nth_append)

lemma prepare_ok:
  assumes ok: "registry_ok st" and fr: "fresh_definition d st"
  shows "registry_ok (prepare key d st)"
proof (rule registry_okI)
  note dl = fresh_definitionD(1) [OF fr]
  fix k e assume e: "definitions (prepare key d st) k = Some e"
  then have e': "definitions st k = Some e" by (simp add: prepare_fields(1) [OF dl])
  from registry_okD1 [OF ok e'] obtain r where "array_of st e = Some r" "r < length (arrays st)"
    by blast
  then show "\<exists>r. array_of (prepare key d st) e = Some r \<and> r < length (arrays (prepare key d st))"
    using prepare_array_of [OF fr e', of key] by (simp add: prepare_fields(2) [OF dl])
next
  note dl = fresh_definitionD(1) [OF fr]
  fix k ob assume "definitions (prepare key d st) k = Some (Definition ob)"
  then have "definitions st k = Some (Definition ob)" by (simp add: prepare_fields(1) [OF dl])
  then show "ob < length (objects (prepare key d st))"
    using registry_okD3 [OF ok] by (simp add: prepare_fields(3) [OF dl])
next
  note dl = fresh_definitionD(1) [OF fr]
  fix k k' e e'
  assume "definitions (prepare key d st) k = Some e" "definitions (prepare key d st) k' = Some e'"
    and eq: "array_of (prepare key d st) e = array_of (prepare key d st) e'"
  then have e: "definitions st k = Some e" and e': "definitions st k' = Some e'"
    by (simp_all add: prepare_fields(1) [OF dl])
  have "array_of st e = array_of st e'"
    using eq prepare_array_of [OF fr e, of key] prepare_array_of [OF fr e', of key] by simp
  then show "k = k'" using registry_okD2 [OF ok e e'] by simp
qed

lemma prepare_unreferenced_new:
  assumes ok: "registry_ok st" and fr: "fresh_definition d st"
    and r: "length (arrays st) \<le> r" "r < length (arrays (prepare key d st))"
  shows "unreferenced r (prepare key d st)"
  unfolding unreferenced_def
proof (intro conjI allI impI)
  note dl = fresh_definitionD(1) [OF fr]
  show "r < length (arrays (prepare key d st))" by (rule r(2))
  fix k e assume "definitions (prepare key d st) k = Some e"
  then have e: "definitions st k = Some e" by (simp add: prepare_fields(1) [OF dl])
  from registry_okD1 [OF ok e] obtain r' where "array_of st e = Some r'" "r' < length (arrays st)"
    by blast
  then show "array_of (prepare key d st) e \<noteq> Some r"
    using prepare_array_of [OF fr e, of key] r(1) by simp
qed

lemma prepare_unreferenced_old:
  assumes fr: "fresh_definition d st" and un: "unreferenced r st"
  shows "unreferenced r (prepare key d st)"
  unfolding unreferenced_def
proof (intro conjI allI impI)
  note dl = fresh_definitionD(1) [OF fr]
  show "r < length (arrays (prepare key d st))"
    using un by (simp add: unreferenced_def prepare_fields(2) [OF dl])
  fix k e assume "definitions (prepare key d st) k = Some e"
  then have e: "definitions st k = Some e" by (simp add: prepare_fields(1) [OF dl])
  then show "array_of (prepare key d st) e \<noteq> Some r"
    using prepare_array_of [OF fr e, of key] un by (simp add: unreferenced_def)
qed

lemma prepare_loop_array:
  assumes ok: "registry_ok st" and fr: "fresh_definition d st"
  shows "unreferenced (loop_array key d st) (prepare key d st)"
    and "arrays (prepare key d st) ! loop_array key d st = requires_of st d"
proof -
  note dl = fresh_definitionD(1) [OF fr]
  show "unreferenced (loop_array key d st) (prepare key d st)"
  proof (cases "requires_arr (objects st ! d)")
    case None
    then show ?thesis
      using prepare_unreferenced_new [OF ok fr, of "loop_array key d st" key]
      by (simp add: loop_array_eq [OF dl] prepare_fields(2) [OF dl])
  next
    case (Some ra)
    then have "unreferenced ra st" using fr by (simp add: fresh_definition_def)
    then show ?thesis
      using Some prepare_unreferenced_old [OF fr, of ra key] by (simp add: loop_array_eq [OF dl])
  qed
  show "arrays (prepare key d st) ! loop_array key d st = requires_of st d"
  proof (cases "requires_arr (objects st ! d)")
    case None
    then show ?thesis
      by (simp add: loop_array_eq [OF dl] prepare_fields(2) [OF dl] requires_of_def nth_append)
  next
    case (Some ra)
    then have "ra < length (arrays st)" using fr by (simp add: fresh_definition_def unreferenced_def)
    then show ?thesis
      using Some by (simp add: loop_array_eq [OF dl] prepare_old_arrays [OF dl] requires_of_def)
  qed
qed

lemma add_fresh:
  assumes ok: "registry_ok st" and fr: "fresh_definition d st"
  shows "add prep key d st =
     Some (finish_add prep key d (foldl (edge_step key) (prepare key d st) (requires_of st d)))"
proof -
  have "add_loop key (loop_array key d st) 0 (prepare key d st) =
      Some (None, foldl (edge_step key) (prepare key d st)
        (drop 0 (arrays (prepare key d st) ! loop_array key d st)))"
    using prepare_ok [OF ok fr] prepare_loop_array(1) [OF ok fr]
    by (intro add_loop_fold) simp_all
  then show ?thesis
    by (simp add: add_unfold prepare_loop_array(2) [OF ok fr])
qed

lemma edge_step_uis: "uis (edge_step key st rk) = uis st"
  by (simp add: edge_step_def add_edge_cases split: option.splits)

lemma foldl_edge_step_uis: "uis (foldl (edge_step key) st rs) = uis st"
  by (induction rs arbitrary: st) (simp_all add: edge_step_uis)

lemma finish_add_accepted:
  assumes "ui_accepted prep d st"
  shows "fst (finish_add prep key d st) = None"
    and "definitions (snd (finish_add prep key d st)) = (definitions st)(key \<mapsto> Definition d)"
    and "arrays (snd (finish_add prep key d st)) = arrays st"
    and "objects (snd (finish_add prep key d st)) = objects st"
    and "trace (snd (finish_add prep key d st)) = trace st @ [Added_definition key]"
  using assms
  by (auto simp: finish_add_def normalise_ui_def ui_accepted_def Let_def
      split: option.splits)

lemma finish_add_rejected:
  assumes "\<not> ui_accepted prep d st"
  shows "fst (finish_add prep key d st) = Some Ui_error"
    and "definitions (snd (finish_add prep key d st)) = definitions st"
    and "arrays (snd (finish_add prep key d st)) = arrays st"
  using assms
  by (auto simp: finish_add_def normalise_ui_def ui_accepted_def split: option.splits)

lemma ui_accepted_loop:
  assumes "d < length (objects st)"
  shows "ui_accepted prep d (foldl (edge_step key) (prepare key d st) rs) = ui_accepted prep d st"
  by (simp add: ui_accepted_def foldl_edge_step_objects foldl_edge_step_uis
      prepare_fields(7,9) [OF assms] cong: option.case_cong)


lemma required_by_of_Some:
  "required_by_of st k = Some old \<longleftrightarrow>
     (\<exists>e r. definitions st k = Some e \<and> array_of st e = Some r \<and> old = arrays st ! r)"
  by (auto simp: required_by_of_def split: option.splits)


lemma registry_ok_cong:
  "definitions a = definitions b \<Longrightarrow> arrays a = arrays b \<Longrightarrow> objects a = objects b \<Longrightarrow>
   registry_ok a = registry_ok b"
  by (simp add: registry_ok_def array_of_cong [of a b])

lemma unreferenced_cong:
  "definitions a = definitions b \<Longrightarrow> arrays a = arrays b \<Longrightarrow> objects a = objects b \<Longrightarrow>
   unreferenced r a = unreferenced r b"
  by (simp add: unreferenced_def array_of_cong [of a b])

lemma registry_ok_replace:
  assumes ok: "registry_ok st" and c: "array_of st E = Some c" "c < length (arrays st)"
    and ob: "\<And>ob. E = Definition ob \<Longrightarrow> ob < length (objects st)"
    and other: "\<And>k' e'. k' \<noteq> key \<Longrightarrow> definitions st k' = Some e' \<Longrightarrow> array_of st e' \<noteq> Some c"
  shows "registry_ok (st\<lparr>definitions := (definitions st)(key \<mapsto> E)\<rparr>)"
proof (rule registry_okI)
  let ?st = "st\<lparr>definitions := (definitions st)(key \<mapsto> E)\<rparr>"
  have ao: "array_of ?st x = array_of st x" for x by (rule array_of_cong) simp
  fix k e assume "definitions ?st k = Some e"
  then show "\<exists>r. array_of ?st e = Some r \<and> r < length (arrays ?st)"
    using c registry_okD1 [OF ok, of k e] by (auto simp: ao split: if_splits)
next
  let ?st = "st\<lparr>definitions := (definitions st)(key \<mapsto> E)\<rparr>"
  fix k x assume "definitions ?st k = Some (Definition x)"
  then show "x < length (objects ?st)"
    using ob registry_okD3 [OF ok, of k x] by (auto split: if_splits)
next
  let ?st = "st\<lparr>definitions := (definitions st)(key \<mapsto> E)\<rparr>"
  have ao: "array_of ?st x = array_of st x" for x by (rule array_of_cong) simp
  fix k k' e e'
  assume "definitions ?st k = Some e" "definitions ?st k' = Some e'"
    "array_of ?st e = array_of ?st e'"
  then show "k = k'"
    using c(1) other [of k e] other [of k' e'] registry_okD2 [OF ok, of k e k' e']
    by (auto simp: ao split: if_splits)
qed

lemma add_fresh_ok:
  assumes ok: "registry_ok st" and fr: "fresh_definition d st" and ui: "ui_accepted prep d st"
  shows "\<exists>st'. add prep key d st = Some (None, st') \<and> registry_ok st' \<and>
           definitions st' key = Some (Definition d) \<and>
           length (objects st') = length (objects st)"
proof -
  note dl = fresh_definitionD(1) [OF fr]
  let ?P = "prepare key d st"
  let ?L = "foldl (edge_step key) ?P (requires_of st d)"
  let ?F = "finish_add prep key d ?L"
  have okP: "registry_ok ?P" using ok fr by (rule prepare_ok)
  have okL: "registry_ok ?L" using okP by (rule foldl_edge_step_ok)
  have uL: "ui_accepted prep d ?L" using ui by (simp add: ui_accepted_loop [OF dl])
  note fin = finish_add_accepted [OF uL, of key]
  have dL: "d < length (objects ?L)"
    using dl by (simp add: foldl_edge_step_objects prepare_fields(3) [OF dl])
  have ch: "required_by (objects ?L ! d) = chosen key st"
    by (simp add: foldl_edge_step_objects prepare_fields(5) [OF dl])
  have "\<exists>c. array_of ?L (Definition d) = Some c \<and> c < length (arrays ?L) \<and>
      (\<forall>k' e'. k' \<noteq> key \<longrightarrow> definitions ?L k' = Some e' \<longrightarrow> array_of ?L e' \<noteq> Some c)"
  proof (cases "definitions st key")
    case None
    let ?c = "length (arrays st)"
    have "unreferenced ?c ?P"
      using prepare_unreferenced_new [OF ok fr, of ?c key] None
      by (simp add: prepare_fields(2) [OF dl])
    then have "unreferenced ?c ?L" using foldl_edge_step_unreferenced by blast
    then show ?thesis using None ch by (auto simp: array_of_def chosen_eq unreferenced_def)
  next
    case (Some e)
    then obtain r where r: "array_of st e = Some r" using registry_okD1 [OF ok] by blast
    have eP: "definitions ?P key = Some e" using Some by (simp add: prepare_fields(1) [OF dl])
    have rP: "array_of ?P e = Some r" using r prepare_array_of [OF fr Some, of key] by simp
    have eL: "definitions ?L key = Some e"
      using foldl_edge_step_keeps [OF okP eP rP, of key "requires_of st d"] by blast
    have rL: "array_of ?L e = Some r" using rP by (simp add: foldl_edge_step_array_of)
    have "r < length (arrays ?L)" using registry_okD1 [OF okL eL] rL by simp
    moreover have "array_of ?L e' \<noteq> Some r" if "k' \<noteq> key" "definitions ?L k' = Some e'" for k' e'
      using registry_okD2 [OF okL that(2) eL] that(1) rL by auto
    ultimately show ?thesis using Some r ch by (auto simp: array_of_def chosen_eq)
  qed
  then obtain c where c: "array_of ?L (Definition d) = Some c" "c < length (arrays ?L)"
    and other: "\<And>k' e'. k' \<noteq> key \<Longrightarrow> definitions ?L k' = Some e' \<Longrightarrow> array_of ?L e' \<noteq> Some c"
    by blast
  have "registry_ok (?L\<lparr>definitions := (definitions ?L)(key \<mapsto> Definition d)\<rparr>)"
    using okL c dL other by (intro registry_ok_replace) auto
  then have okF: "registry_ok (snd ?F)"
    by (subst registry_ok_cong [of _ "?L\<lparr>definitions := (definitions ?L)(key \<mapsto> Definition d)\<rparr>"])
      (simp_all add: fin)
  have "add prep key d st = Some ?F" using ok fr by (rule add_fresh)
  then have "add prep key d st = Some (None, snd ?F)" using fin(1) by (metis prod.collapse)
  moreover have "definitions (snd ?F) key = Some (Definition d)" by (simp add: fin)
  moreover have "length (objects (snd ?F)) = length (objects st)"
    by (simp add: fin foldl_edge_step_objects prepare_fields(3) [OF dl])
  ultimately show ?thesis using okF by blast
qed

lemma new_definition_fields:
  "fst (new_definition reqs u cb st) = length (objects st)"
  "definitions (snd (new_definition reqs u cb st)) = definitions st"
  "arrays (snd (new_definition reqs u cb st)) =
     arrays st @ (case reqs of None \<Rightarrow> [] | Some rs \<Rightarrow> [rs])"
  "objects (snd (new_definition reqs u cb st)) =
     objects st @
       [\<lparr>requires_arr = (case reqs of None \<Rightarrow> None | Some rs \<Rightarrow> Some (length (arrays st))),
         required_by = None,
         ui = (case u of None \<Rightarrow> None | Some x \<Rightarrow> Some (length (uis st))),
         changed = cb\<rparr>]"
  by (cases reqs; simp add: new_definition_def)+

lemma new_definition_fresh:
  assumes ok: "registry_ok st"
  shows "registry_ok (snd (new_definition reqs u cb st))"
    and "fresh_definition (fst (new_definition reqs u cb st)) (snd (new_definition reqs u cb st))"
    and "requires_of (snd (new_definition reqs u cb st)) (fst (new_definition reqs u cb st)) =
           (case reqs of None \<Rightarrow> [] | Some rs \<Rightarrow> rs)"
proof -
  let ?st = "snd (new_definition reqs u cb st)"
  let ?d = "fst (new_definition reqs u cb st)"
  note nf = new_definition_fields [of reqs u cb st]
  have ao: "array_of ?st e = array_of st e" if "definitions st k = Some e" for k e
  proof (cases e)
    case (Placeholder r)
    then show ?thesis by (simp add: array_of_def)
  next
    case (Definition ob)
    then have "ob < length (objects st)" using that registry_okD3 [OF ok] by blast
    then show ?thesis using Definition by (simp add: array_of_def nf(4) nth_append)
  qed
  have len: "length (arrays st) \<le> length (arrays ?st)" by (simp add: nf(3))
  show okn: "registry_ok ?st"
  proof (rule registry_okI)
    fix k e assume "definitions ?st k = Some e"
    then have e: "definitions st k = Some e" by (simp add: nf(2))
    from registry_okD1 [OF ok e] obtain r where "array_of st e = Some r" "r < length (arrays st)"
      by blast
    then show "\<exists>r. array_of ?st e = Some r \<and> r < length (arrays ?st)"
      using ao [OF e] len by simp
  next
    fix k ob assume "definitions ?st k = Some (Definition ob)"
    then have "definitions st k = Some (Definition ob)" by (simp add: nf(2))
    then have "ob < length (objects st)" using registry_okD3 [OF ok] by blast
    then show "ob < length (objects ?st)" by (simp add: nf(4))
  next
    fix k k' e e'
    assume "definitions ?st k = Some e" "definitions ?st k' = Some e'"
      and eq: "array_of ?st e = array_of ?st e'"
    then have e: "definitions st k = Some e" and e': "definitions st k' = Some e'"
      by (simp_all add: nf(2))
    have "array_of st e = array_of st e'" using eq ao [OF e] ao [OF e'] by simp
    then show "k = k'" using registry_okD2 [OF ok e e'] by simp
  qed
  show "requires_of ?st ?d = (case reqs of None \<Rightarrow> [] | Some rs \<Rightarrow> rs)"
    by (cases reqs) (simp_all add: requires_of_def new_definition_fields)
  have stored: "definitions ?st k \<noteq> Some (Definition ?d)" for k
  proof
    assume "definitions ?st k = Some (Definition ?d)"
    then have "definitions st k = Some (Definition (length (objects st)))" by (simp add: nf)
    then have "length (objects st) < length (objects st)" using registry_okD3 [OF ok] by blast
    then show False by simp
  qed
  have req: "case requires_arr (objects ?st ! ?d) of None \<Rightarrow> True | Some ra \<Rightarrow> unreferenced ra ?st"
  proof (cases reqs)
    case None
    then show ?thesis by (simp add: new_definition_fields)
  next
    case (Some rs)
    have "unreferenced (length (arrays st)) ?st"
      unfolding unreferenced_def
    proof (intro conjI allI impI)
      show "length (arrays st) < length (arrays ?st)"
        using Some by (simp add: new_definition_fields)
      fix k e assume "definitions ?st k = Some e"
      then have e: "definitions st k = Some e" by (simp add: nf(2))
      from registry_okD1 [OF ok e] obtain r where "array_of st e = Some r" "r < length (arrays st)"
        by blast
      then show "array_of ?st e \<noteq> Some (length (arrays st))"
        using ao [OF e] by simp
    qed
    then show ?thesis using Some by (simp add: new_definition_fields)
  qed
  have "?d < length (objects ?st)" by (simp add: nf)
  then show "fresh_definition ?d ?st"
    unfolding fresh_definition_def using stored req by blast
qed

lemma new_manager_ok: "registry_ok (new_manager p cs)"
  by (simp add: registry_ok_def new_manager_def)

lemmas add_eval = add_literal_def new_definition_def add_def choose_required_by_def
  set_required_by_def ensure_requires_def set_requires_def finish_add_def normalise_ui_def
  add_edge_def push_def new_manager_def Let_def and_then_def accept_def add_loop.simps
  required_by_of_def requires_of_def array_of_def





text \<open>
  Claim C1 at \<open>add('a', {requires: ['a']})\<close> on a new manager, a definition that
  requires its own key, registered while the key has no entry: the loop of \<open>add\<close> creates
  the placeholder \<open>[a]\<close> for the key, and the final \<open>definitions.set(key, definition)\<close>
  replaces it by the definition, whose \<open>required_by\<close> is the empty array chosen before
  the loop. The call returns without an error, the key \<open>a\<close> is in the \<open>requires\<close> of the
  definition registered under \<open>a\<close>, and it is not in the \<open>required_by\<close> list of \<open>a\<close>.
\<close>

theorem add_self_requirement_lost:
  "map_option (\<lambda>(e, st). (e, definitions st ''a'', requires_of st 0, required_by_of st ''a''))
     (add_literal accept ''a'' (Some [''a'']) None None (new_manager [] [])) =
   Some (None, Some (Definition 0), [''a''], Some [])"
  by (simp add: add_eval)

text \<open>
  The same registration when the key already has an entry (here the placeholder made
  by a definition \<open>b\<close> that requires \<open>a\<close>) records the edge.
\<close>

lemma add_self_requirement_kept:
  "map_option (\<lambda>(e, st). (e, definitions st ''a'', requires_of st 1, required_by_of st ''a''))
     (and_then (add_literal accept ''b'' (Some [''a'']) None None (new_manager [] []))
        (add_literal accept ''a'' (Some [''a'']) None None)) =
   Some (None, Some (Definition 1), [''a''], Some [''b'', ''a''])"
  by (simp add: add_eval)

text \<open>
  One object registered under \<open>x\<close> and under \<open>y\<close> shares its \<open>required_by\<close> between the
  two keys: registering \<open>y\<close> again, with a new object that requires \<open>x\<close>, puts \<open>y\<close> into
  the \<open>required_by\<close> list of \<open>y\<close>.
\<close>

lemma add_shared_object:
  "map_option (\<lambda>(e, st). (e, definitions st ''y'', requires_of st 1, required_by_of st ''y''))
     (and_then
        (and_then (add accept ''x'' 0 (snd (new_definition None None None (new_manager [] []))))
           (add accept ''y'' 0))
        (add_literal accept ''y'' (Some [''x'']) None None)) =
   Some (None, Some (Definition 1), [''x''], Some [''y''])"
  by (simp add: add_eval)

text \<open>
  When the normalisation of the descriptor throws, the edges of the loop are made and the
  definition is not stored.
\<close>

lemma add_ui_throws:
  "map_option (\<lambda>(e, st). (e, definitions st ''a'', required_by_of st ''b''))
     (add_literal (\<lambda>u. (True, u)) ''a'' (Some [''b'']) (Some (5::nat)) None (new_manager [] [])) =
   Some (Some Ui_error, None, Some [''a''])"
  by (simp add: add_eval)

subsection \<open>Edges between different keys\<close>

text \<open>
  Registrations with object literals, from a new manager, with descriptors that the
  normalisation accepts: every call returns without an error, and afterwards each key
  required by a registered definition under another key lists that key in its
  \<open>required_by\<close>. The back-edge of a key that requires itself is not covered: it is
  the one that the registration loses.
\<close>

lemma edge_step_definition_old:
  assumes "definitions (edge_step key st rk) D = Some (Definition ob)"
  shows "definitions st D = Some (Definition ob)"
proof (cases "definitions st rk")
  case None
  then show ?thesis using assms by (auto simp: edge_step_unknown split: if_splits)
next
  case (Some e)
  show ?thesis
  proof (cases "array_of st e")
    case None
    then show ?thesis using assms Some by (simp add: edge_step_def add_edge_cases)
  next
    case (Some r)
    then show ?thesis using assms \<open>definitions st rk = Some e\<close> by (simp add: edge_step_known)
  qed
qed

lemma foldl_edge_step_definition_old:
  "definitions (foldl (edge_step key) st rs) D = Some (Definition ob) \<Longrightarrow>
   definitions st D = Some (Definition ob)"
proof (induction rs arbitrary: st)
  case Nil
  then show ?case by simp
next
  case (Cons a rs)
  from Cons.IH [of "edge_step key st a"] Cons.prems
  have "definitions (edge_step key st a) D = Some (Definition ob)" by simp
  then show ?case by (rule edge_step_definition_old)
qed

lemma edge_step_records:
  assumes ok: "registry_ok st"
  shows "\<exists>e c. definitions (edge_step key st rk) rk = Some e \<and>
           array_of (edge_step key st rk) e = Some c \<and>
           key \<in> set (arrays (edge_step key st rk) ! c)"
proof (cases "definitions st rk")
  case None
  show ?thesis
    unfolding edge_step_unknown [OF None]
    by (simp add: array_of_def)
next
  case (Some e)
  then obtain r where r: "array_of st e = Some r" "r < length (arrays st)"
    using registry_okD1 [OF ok] by blast
  have "array_of (st\<lparr>arrays := push r key (arrays st)\<rparr>) e = array_of st e"
    by (rule array_of_cong) simp
  then show ?thesis
    unfolding edge_step_known [OF Some r(1)]
    using Some r by (simp add: push_def)
qed

lemma foldl_edge_step_records:
  assumes "registry_ok st" "K \<in> set rs"
  shows "\<exists>e c. definitions (foldl (edge_step key) st rs) K = Some e \<and>
           array_of (foldl (edge_step key) st rs) e = Some c \<and>
           key \<in> set (arrays (foldl (edge_step key) st rs) ! c)"
  using assms
proof (induction rs arbitrary: st)
  case Nil
  then show ?case by simp
next
  case (Cons a rs)
  have ok: "registry_ok (edge_step key st a)" using Cons.prems(1) by (rule edge_step_ok)
  show ?case
  proof (cases "K \<in> set rs")
    case True
    then show ?thesis using Cons.IH [OF ok] by simp
  next
    case False
    then have "K = a" using Cons.prems(2) by simp
    then obtain e c where e: "definitions (edge_step key st a) K = Some e"
      and c: "array_of (edge_step key st a) e = Some c"
      and k: "key \<in> set (arrays (edge_step key st a) ! c)"
      using edge_step_records [OF Cons.prems(1), of key a] by blast
    from foldl_edge_step_keeps [OF ok e c, of key rs] k c show ?thesis
      by (simp add: foldl_edge_step_array_of)
  qed
qed

lemma edges_okD:
  "edges_ok st \<Longrightarrow> definitions st D = Some (Definition ob) \<Longrightarrow> K \<in> set (requires_of st ob) \<Longrightarrow>
   K \<noteq> D \<Longrightarrow> \<exists>e r. definitions st K = Some e \<and> array_of st e = Some r \<and> D \<in> set (arrays st ! r)"
  unfolding edges_ok_def required_by_of_Some by blast

lemma requires_sealedD:
  "requires_sealed st \<Longrightarrow> definitions st k = Some (Definition ob) \<Longrightarrow>
   requires_arr (objects st ! ob) = Some ra \<Longrightarrow> unreferenced ra st"
  unfolding requires_sealed_def by blast

lemma add_fresh_result:
  assumes ok: "registry_ok st" and fr: "fresh_definition d st" and ui: "ui_accepted prep d st"
  shows "\<exists>st'. add prep key d st = Some (None, st') \<and>
           definitions st' =
             (definitions (foldl (edge_step key) (prepare key d st) (requires_of st d)))
               (key \<mapsto> Definition d) \<and>
           arrays st' = arrays (foldl (edge_step key) (prepare key d st) (requires_of st d)) \<and>
           objects st' = objects (prepare key d st)"
proof -
  note dl = fresh_definitionD(1) [OF fr]
  let ?L = "foldl (edge_step key) (prepare key d st) (requires_of st d)"
  let ?F = "finish_add prep key d ?L"
  have uL: "ui_accepted prep d ?L" using ui by (simp add: ui_accepted_loop [OF dl])
  note fin = finish_add_accepted [OF uL, of key]
  have "add prep key d st = Some ?F" using ok fr by (rule add_fresh)
  then have "add prep key d st = Some (None, snd ?F)" using fin(1) by (metis prod.collapse)
  then show ?thesis by (simp add: fin foldl_edge_step_objects)
qed

lemma add_fresh_invariants:
  assumes ok: "registry_ok st" and sealed: "requires_sealed st" and ed: "edges_ok st"
    and fr: "fresh_definition d st" and ui: "ui_accepted prep d st"
  shows "\<exists>st'. add prep key d st = Some (None, st') \<and>
           registry_ok st' \<and> requires_sealed st' \<and> edges_ok st' \<and>
           length (objects st') = length (objects st)"
proof -
  note dl = fresh_definitionD(1) [OF fr]
  let ?P = "prepare key d st"
  let ?L = "foldl (edge_step key) ?P (requires_of st d)"
  from add_fresh_result [OF ok fr ui, of key] obtain F
    where add: "add prep key d st = Some (None, F)"
      and dF: "definitions F = (definitions ?L)(key \<mapsto> Definition d)"
      and aF: "arrays F = arrays ?L" and oF: "objects F = objects ?P"
    by blast
  from add_fresh_ok [OF ok fr ui, of key] add have okF: "registry_ok F" by simp
  have okP: "registry_ok ?P" using ok fr by (rule prepare_ok)
  have okL: "registry_ok ?L" using okP by (rule foldl_edge_step_ok)
  have aoF: "array_of F e = array_of ?P e" for e by (rule array_of_cong) (rule oF)
  have aoL: "array_of ?L e = array_of ?P e" for e by (rule foldl_edge_step_array_of)
  have lenF: "length (objects F) = length (objects st)" by (simp add: oF prepare_fields(3) [OF dl])
  \<comment> \<open>entries of the old registry\<close>
  have old: "definitions ?L k = Some e \<and> array_of ?P e = Some r \<and>
      set (arrays st ! r) \<subseteq> set (arrays ?L ! r)"
    if "definitions st k = Some e" "array_of st e = Some r" for k e r
  proof -
    have lt: "r < length (arrays st)" using registry_okD1 [OF ok that(1)] that(2) by simp
    have eP: "definitions ?P k = Some e" using that(1) by (simp add: prepare_fields(1) [OF dl])
    have rP: "array_of ?P e = Some r" using that(2) prepare_array_of [OF fr that(1), of key] by simp
    from foldl_edge_step_keeps [OF okP eP rP, of key "requires_of st d"]
    show ?thesis using rP by (auto simp: prepare_old_arrays [OF dl lt])
  qed
  \<comment> \<open>the array of the new entry\<close>
  have new: "array_of F (Definition d) = chosen key st"
    by (simp add: array_of_def oF prepare_fields(5) [OF dl])
  \<comment> \<open>arrays that the registry does not carry stay as they are\<close>
  have keep: "unreferenced ra ?L \<and> arrays ?L ! ra = arrays st ! ra" if "unreferenced ra st" for ra
  proof -
    have "ra < length (arrays st)" using that by (simp add: unreferenced_def)
    then have "arrays ?P ! ra = arrays st ! ra" by (simp add: prepare_old_arrays [OF dl])
    then show ?thesis
      using foldl_edge_step_unreferenced [OF prepare_unreferenced_old [OF fr that, of key],
          of key "requires_of st d"]
      by simp
  qed
  have loop: "unreferenced (loop_array key d st) ?L \<and>
      arrays ?L ! loop_array key d st = requires_of st d"
    using foldl_edge_step_unreferenced [OF prepare_loop_array(1) [OF ok fr, of key],
        of key "requires_of st d"] prepare_loop_array(2) [OF ok fr, of key]
    by simp
  have chosen_referenced: "\<not> unreferenced c ?L \<or> (definitions st key = None \<and> c = length (arrays st))"
    if "chosen key st = Some c" for c
  proof (cases "definitions st key")
    case None
    then show ?thesis using that by (simp add: chosen_eq)
  next
    case (Some e)
    then have "array_of st e = Some c" using that by (simp add: chosen_eq)
    from old [OF Some this] show ?thesis by (auto simp: unreferenced_def aoL)
  qed
  have lift: "unreferenced ra F" if "unreferenced ra ?L" "chosen key st \<noteq> Some ra" for ra
    unfolding unreferenced_def
  proof (intro conjI allI impI)
    show "ra < length (arrays F)" using that(1) by (simp add: unreferenced_def aF)
    fix k e assume e: "definitions F k = Some e"
    show "array_of F e \<noteq> Some ra"
    proof (cases "k = key")
      case True
      then show ?thesis using e that(2) new by (simp add: dF)
    next
      case False
      then have "definitions ?L k = Some e" using e by (simp add: dF)
      then show ?thesis using that(1) by (simp add: unreferenced_def aoF aoL)
    qed
  qed
  have reqF_old: "requires_arr (objects F ! ob) = requires_arr (objects st ! ob)" if "ob \<noteq> d" for ob
    using that by (simp add: oF prepare_fields(4) [OF dl])
  have reqF_new: "requires_arr (objects F ! d) = Some (loop_array key d st)"
    by (simp add: oF prepare_fields(6) [OF dl])
  have stored_old: "definitions st D = Some (Definition ob) \<and> ob \<noteq> d"
    if "definitions F D = Some (Definition ob)" "D \<noteq> key" for D ob
  proof -
    have "definitions ?L D = Some (Definition ob)" using that by (simp add: dF)
    then have "definitions ?P D = Some (Definition ob)" by (rule foldl_edge_step_definition_old)
    then have "definitions st D = Some (Definition ob)" by (simp add: prepare_fields(1) [OF dl])
    then show ?thesis using fresh_definitionD(2) [OF fr, of D] by auto
  qed
  have stored_new: "ob = d" if "definitions F key = Some (Definition ob)" for ob
    using that by (simp add: dF)
  have sealedF: "requires_sealed F"
    unfolding requires_sealed_def
  proof (intro allI impI, elim conjE)
    fix k ob ra
    assume s: "definitions F k = Some (Definition ob)" and r: "requires_arr (objects F ! ob) = Some ra"
    show "unreferenced ra F"
    proof (cases "k = key")
      case True
      then have ra: "ra = loop_array key d st" using s r reqF_new stored_new by auto
      have "chosen key st \<noteq> Some ra"
      proof
        assume c: "chosen key st = Some ra"
        from chosen_referenced [OF c] loop ra
        have "definitions st key = None" "ra = length (arrays st)" by auto
        then show False
          using ra fr
          by (auto simp: loop_array_eq [OF dl] fresh_definition_def unreferenced_def
              split: option.splits)
      qed
      then show ?thesis using lift loop ra by blast
    next
      case False
      from stored_old [OF s False] have so: "definitions st k = Some (Definition ob)" "ob \<noteq> d"
        by simp_all
      then have "requires_arr (objects st ! ob) = Some ra" using r reqF_old by simp
      then have un: "unreferenced ra st" using sealed so(1) by (rule requires_sealedD [rotated 2])
      have "chosen key st \<noteq> Some ra"
      proof
        assume c: "chosen key st = Some ra"
        from chosen_referenced [OF c] keep [OF un]
        have "ra = length (arrays st)" by auto
        then show False using un by (simp add: unreferenced_def)
      qed
      then show ?thesis using lift keep [OF un] by blast
    qed
  qed
  have reqsF_new: "requires_of F d = requires_of st d"
    using loop by (simp add: requires_of_def reqF_new aF)
  have reqsF_old: "requires_of F ob = requires_of st ob"
    if "definitions st D = Some (Definition ob)" "ob \<noteq> d" for D ob
  proof (cases "requires_arr (objects st ! ob)")
    case None
    then show ?thesis using that by (simp add: requires_of_def reqF_old)
  next
    case (Some ra)
    have "unreferenced ra st" using sealed that(1) Some by (rule requires_sealedD)
    then show ?thesis using keep Some that by (simp add: requires_of_def reqF_old aF)
  qed
  have edgesF: "edges_ok F"
    unfolding edges_ok_def required_by_of_Some
  proof (intro allI impI, elim conjE)
    fix D ob K
    assume s: "definitions F D = Some (Definition ob)" and K: "K \<in> set (requires_of F ob)"
      and ne: "K \<noteq> D"
    show "\<exists>rb. (\<exists>e r. definitions F K = Some e \<and> array_of F e = Some r \<and> rb = arrays F ! r) \<and>
        D \<in> set rb"
    proof (cases "D = key")
      case True
      then have "ob = d" using s stored_new by simp
      then have "K \<in> set (requires_of st d)" using K reqsF_new by simp
      from foldl_edge_step_records [OF okP this, of key]
      obtain e c where "definitions ?L K = Some e" "array_of ?L e = Some c"
        "key \<in> set (arrays ?L ! c)" by blast
      then show ?thesis using True ne by (auto simp: dF aF aoF aoL)
    next
      case False
      from stored_old [OF s False] have so: "definitions st D = Some (Definition ob)" "ob \<noteq> d"
        by simp_all
      have "K \<in> set (requires_of st ob)" using K reqsF_old [OF so] by simp
      from edges_okD [OF ed so(1) this ne]
      obtain e r where e: "definitions st K = Some e" and r: "array_of st e = Some r"
        and m: "D \<in> set (arrays st ! r)" by blast
      from old [OF e r] have o: "definitions ?L K = Some e" "array_of ?P e = Some r"
        "D \<in> set (arrays ?L ! r)" using m by auto
      show ?thesis
      proof (cases "K = key")
        case True
        then have "chosen key st = Some r" using e r by (simp add: chosen_eq)
        then show ?thesis using True o(3) new by (auto simp: dF aF)
      next
        case False
        then show ?thesis using o by (auto simp: dF aF aoF)
      qed
    qed
  qed
  show ?thesis using add okF sealedF edgesF lenF by blast
qed

lemma new_definition_old_objects:
  assumes ok: "registry_ok st" and s: "definitions st k = Some (Definition ob)"
  shows "objects (snd (new_definition reqs u cb st)) ! ob = objects st ! ob"
proof -
  have "ob < length (objects st)" using registry_okD3 [OF ok s] .
  then show ?thesis by (simp add: new_definition_fields nth_append)
qed

lemma new_definition_array_of:
  assumes ok: "registry_ok st" and e: "definitions st k = Some e"
  shows "array_of (snd (new_definition reqs u cb st)) e = array_of st e"
proof (cases e)
  case (Placeholder r)
  then show ?thesis by (simp add: array_of_def)
next
  case (Definition ob)
  then show ?thesis
    using new_definition_old_objects [OF ok, of k ob reqs u cb] e by (simp add: array_of_def)
qed

lemma new_definition_old_arrays:
  "r < length (arrays st) \<Longrightarrow> arrays (snd (new_definition reqs u cb st)) ! r = arrays st ! r"
  by (simp add: new_definition_fields nth_append)

lemma new_definition_unreferenced:
  assumes ok: "registry_ok st" and un: "unreferenced r st"
  shows "unreferenced r (snd (new_definition reqs u cb st))"
  unfolding unreferenced_def
proof (intro conjI allI impI)
  let ?st = "snd (new_definition reqs u cb st)"
  show "r < length (arrays ?st)" using un by (simp add: unreferenced_def new_definition_fields)
  fix k e assume "definitions ?st k = Some e"
  then have e: "definitions st k = Some e" by (simp add: new_definition_fields)
  then have "array_of st e \<noteq> Some r" using un by (simp add: unreferenced_def)
  then show "array_of ?st e \<noteq> Some r" using new_definition_array_of [OF ok e] by simp
qed

lemma new_definition_sealed:
  assumes ok: "registry_ok st" and sealed: "requires_sealed st"
  shows "requires_sealed (snd (new_definition reqs u cb st))"
  unfolding requires_sealed_def
proof (intro allI impI, elim conjE)
  let ?st = "snd (new_definition reqs u cb st)"
  fix k ob ra
  assume "definitions ?st k = Some (Definition ob)" and r: "requires_arr (objects ?st ! ob) = Some ra"
  then have s: "definitions st k = Some (Definition ob)" by (simp add: new_definition_fields)
  then have "requires_arr (objects st ! ob) = Some ra"
    using r new_definition_old_objects [OF ok s] by simp
  then have "unreferenced ra st" using sealed s by (rule requires_sealedD [rotated 2])
  then show "unreferenced ra ?st" using ok by (rule new_definition_unreferenced [rotated])
qed

lemma new_definition_edges:
  assumes ok: "registry_ok st" and sealed: "requires_sealed st" and ed: "edges_ok st"
  shows "edges_ok (snd (new_definition reqs u cb st))"
  unfolding edges_ok_def required_by_of_Some
proof (intro allI impI, elim conjE)
  let ?st = "snd (new_definition reqs u cb st)"
  fix D ob K
  assume "definitions ?st D = Some (Definition ob)" and K: "K \<in> set (requires_of ?st ob)"
    and ne: "K \<noteq> D"
  then have s: "definitions st D = Some (Definition ob)" by (simp add: new_definition_fields)
  note o = new_definition_old_objects [OF ok s, of reqs u cb]
  have "requires_of ?st ob = requires_of st ob"
  proof (cases "requires_arr (objects st ! ob)")
    case None
    then show ?thesis using o by (simp add: requires_of_def)
  next
    case (Some ra)
    have "unreferenced ra st" using sealed s Some by (rule requires_sealedD)
    then have "ra < length (arrays st)" by (simp add: unreferenced_def)
    then show ?thesis using Some o by (simp add: requires_of_def new_definition_old_arrays)
  qed
  then have "K \<in> set (requires_of st ob)" using K by simp
  from edges_okD [OF ed s this ne]
  obtain e r where e: "definitions st K = Some e" and r: "array_of st e = Some r"
    and m: "D \<in> set (arrays st ! r)" by blast
  have "r < length (arrays st)" using registry_okD1 [OF ok e] r by simp
  then have "D \<in> set (arrays ?st ! r)" using m by (simp add: new_definition_old_arrays)
  moreover have "definitions ?st K = Some e" using e by (simp add: new_definition_fields)
  moreover have "array_of ?st e = Some r" using new_definition_array_of [OF ok e] r by simp
  ultimately show "\<exists>rb. (\<exists>e r. definitions ?st K = Some e \<and> array_of ?st e = Some r \<and>
      rb = arrays ?st ! r) \<and> D \<in> set rb"
    by blast
qed

lemma new_definition_ui_accepted:
  "ui_accepted prep (fst (new_definition reqs u cb st)) (snd (new_definition reqs u cb st)) \<longleftrightarrow>
     (case u of None \<Rightarrow> True | Some x \<Rightarrow> \<not> fst (prep x))"
  by (cases u) (simp_all add: ui_accepted_def new_definition_def)

lemma add_literal_edges:
  assumes ok: "registry_ok st" and sealed: "requires_sealed st" and ed: "edges_ok st"
    and ui: "case u of None \<Rightarrow> True | Some x \<Rightarrow> \<not> fst (prep x)"
  shows "\<exists>st'. add_literal prep key reqs u cb st = Some (None, st') \<and>
           registry_ok st' \<and> requires_sealed st' \<and> edges_ok st'"
proof -
  let ?st = "snd (new_definition reqs u cb st)"
  let ?d = "fst (new_definition reqs u cb st)"
  have "registry_ok ?st" "fresh_definition ?d ?st" using new_definition_fresh [OF ok] by blast+
  moreover have "requires_sealed ?st" using ok sealed by (rule new_definition_sealed)
  moreover have "edges_ok ?st" using ok sealed ed by (rule new_definition_edges)
  moreover have "ui_accepted prep ?d ?st" using ui by (simp add: new_definition_ui_accepted)
  ultimately have "\<exists>st'. add prep key ?d ?st = Some (None, st') \<and>
           registry_ok st' \<and> requires_sealed st' \<and> edges_ok st' \<and>
           length (objects st') = length (objects ?st)"
    by (intro add_fresh_invariants)
  then show ?thesis by (auto simp: add_literal_def)
qed

lemma new_manager_edges:
  "requires_sealed (new_manager p cs)" "edges_ok (new_manager p cs)"
  by (simp_all add: requires_sealed_def edges_ok_def new_manager_def)

lemma add_literals_edges:
  assumes "registry_ok st" "requires_sealed st" "edges_ok st"
    and "\<forall>(k, reqs, u, cb) \<in> set calls. case u of None \<Rightarrow> True | Some x \<Rightarrow> \<not> fst (prep x)"
  shows "\<exists>st'. add_literals prep calls st = Some (None, st') \<and> registry_ok st' \<and> edges_ok st'"
  using assms
proof (induction calls arbitrary: st)
  case Nil
  then show ?case by simp
next
  case (Cons c calls)
  obtain k reqs u cb where c: "c = (k, reqs, u, cb)" by (cases c) auto
  have ui: "case u of None \<Rightarrow> True | Some x \<Rightarrow> \<not> fst (prep x)" using Cons.prems(4) c by simp
  from add_literal_edges [OF Cons.prems(1-3) ui, of k reqs cb]
  obtain st1 where a: "add_literal prep k reqs u cb st = Some (None, st1)"
    and inv: "registry_ok st1" "requires_sealed st1" "edges_ok st1" by blast
  have "\<forall>(k, reqs, u, cb) \<in> set calls. case u of None \<Rightarrow> True | Some x \<Rightarrow> \<not> fst (prep x)"
    using Cons.prems(4) by simp
  from Cons.IH [OF inv this] show ?case using a c by simp
qed

lemma add_sequence_edges:
  assumes "\<forall>(k, reqs, u, cb) \<in> set calls. case u of None \<Rightarrow> True | Some x \<Rightarrow> \<not> fst (prep x)"
  shows "\<exists>st'. add_literals prep calls (new_manager p cs) = Some (None, st') \<and> edges_ok st'"
  using add_literals_edges [OF new_manager_ok new_manager_edges assms] by blast

section \<open>Creating profiles\<close>

declare string_of_nat.simps [simp del]





lemma string_of_nat_not_Nil: "string_of_nat n \<noteq> []"
  by (subst string_of_nat.simps) simp

lemma to_key_examples:
  "to_key 12 = ''12''" "to_key (- 3) = ''-3''" "to_key 0 = ''0''"
  by code_simp+




lemma provider_get_set: "provider_get (provider_set k v p) k = Some v"
  by (induction p) (auto simp: provider_get_def)




lemma key_0: "to_key (int 0) = ''0''" by code_simp
lemma key_0': "to_key 0 = ''0''" by code_simp
lemma key_1: "to_key 1 = ''1''" by code_simp




section \<open>Deleting profiles\<close>

lemma splice_indexOf:
  "(case indexOf xs x of None \<Rightarrow> xs | Some i \<Rightarrow> take i xs @ drop (Suc i) xs) = remove1 x xs"
  by (induction xs) (auto split: option.splits)

lemma provider_set_entries: "set (provider_set k v p) \<subseteq> insert (k, v) (set p)"
  by (induction p) (auto split: if_splits)

lemma profiles_not_scoped: "\<not> starts_with ''profiles'' (profile_prefix i)"
  by (simp add: starts_with_def profile_prefix_def)

lemma clear_entries: "(k, v) \<in> set (clear i p) \<Longrightarrow> \<not> starts_with k (profile_prefix i)"
  by (auto simp: clear_def)

lemma profile_blobs_cong:
  "heap a = heap b \<Longrightarrow> profiles a = profiles b \<Longrightarrow> profile_blobs a = profile_blobs b"
  by (simp add: profile_blobs_def deref_def)

lemma deleteProfile_result:
  assumes "profile_ids st (resolve st a) = Some r" "data_id (data (deref st r)) \<noteq> 0"
  shows "\<exists>st'. deleteProfile a st = (None, st') \<and>
           heap st' = heap st \<and>
           profiles st' = remove1 r (profiles st) \<and>
           profile_ids st' = (profile_ids st)(resolve st a := None) \<and>
           provider st' = provider_set ''profiles'' (Profile_blobs (profile_blobs st'))
                            (clear (data_id (data (deref st r))) (provider st)) \<and>
           trace st' = trace st @ map Select_profiles (contexts st) @ [Profile_deleted r]"
  using assms splice_indexOf [of "profiles st" r]
  by (simp add: deleteProfile_def Let_def saveProfiles_def profile_blobs_def deref_def
      split: option.splits)

text \<open>
  Let the argument of \<open>deleteProfile\<close> resolve, through the id map, to the instance
  \<open>r\<close>. When \<open>r\<close> is the default profile (its id is 0), the call throws and the manager
  (profile list, id map, provider, instances) is what it was. For every other instance,
  the call returns, no key of the provider is left under the profile's prefix
  \<open>p:<id>:\<close>, the instance is removed from the profile list and from the id map, the
  list is persisted under \<open>profiles\<close>, \<open>selectProfiles()\<close> runs on every context and
  \<open>profile-deleted\<close> is emitted with the instance.
\<close>

lemma deleteProfile_resolved:
  assumes "profile_ids st (resolve st a) = Some r"
  shows "(data_id (data (deref st r)) = 0 \<longrightarrow>
            deleteProfile a st = (Some Cannot_delete_default, st)) \<and>
         (data_id (data (deref st r)) \<noteq> 0 \<longrightarrow>
            (\<exists>st'. deleteProfile a st = (None, st') \<and>
               (\<forall>k v. (k, v) \<in> set (provider st') \<longrightarrow>
                   \<not> starts_with k (profile_prefix (data_id (data (deref st r))))) \<and>
               profiles st' = remove1 r (profiles st) \<and>
               profile_ids st' = (profile_ids st)(resolve st a := None) \<and>
               provider_get (provider st') ''profiles'' = Some (Profile_blobs (profile_blobs st')) \<and>
               trace st' = trace st @ map Select_profiles (contexts st) @ [Profile_deleted r]))"
proof (intro conjI impI)
  assume "data_id (data (deref st r)) = 0"
  then show "deleteProfile a st = (Some Cannot_delete_default, st)"
    using assms by (simp add: deleteProfile_def)
next
  assume nz: "data_id (data (deref st r)) \<noteq> 0"
  let ?i = "data_id (data (deref st r))"
  obtain st' where c: "deleteProfile a st = (None, st')"
    and l: "profiles st' = remove1 r (profiles st)"
    and i: "profile_ids st' = (profile_ids st)(resolve st a := None)"
    and p: "provider st' = provider_set ''profiles'' (Profile_blobs (profile_blobs st'))
                            (clear ?i (provider st))"
    and t: "trace st' = trace st @ map Select_profiles (contexts st) @ [Profile_deleted r]"
    using deleteProfile_result [OF assms nz] by blast
  have g: "provider_get (provider st') ''profiles'' = Some (Profile_blobs (profile_blobs st'))"
    by (subst p) (rule provider_get_set)
  have cl: "\<not> starts_with k (profile_prefix ?i)" if "(k, v) \<in> set (provider st')" for k v
  proof -
    from that p have "(k, v) \<in> insert (''profiles'', Profile_blobs (profile_blobs st'))
        (set (clear ?i (provider st)))"
      using provider_set_entries by fastforce
    then show ?thesis using profiles_not_scoped clear_entries by auto
  qed
  show "\<exists>st'. deleteProfile a st = (None, st') \<and>
               (\<forall>k v. (k, v) \<in> set (provider st') \<longrightarrow> \<not> starts_with k (profile_prefix ?i)) \<and>
               profiles st' = remove1 r (profiles st) \<and>
               profile_ids st' = (profile_ids st)(resolve st a := None) \<and>
               provider_get (provider st') ''profiles'' = Some (Profile_blobs (profile_blobs st')) \<and>
               trace st' = trace st @ map Select_profiles (contexts st) @ [Profile_deleted r]"
    using c l i g t cl by blast
qed

lemma key_2: "to_key 2 = ''2''"
  by code_simp

text \<open>Both cases by id, at the manager with the profiles 2 and 0.\<close>

lemma deleteProfile_by_id:
  "profile_ids ids_0_2 (resolve ids_0_2 (By_id 0)) = Some 0 \<and>
   deleteProfile (By_id 0) ids_0_2 = (Some Cannot_delete_default, ids_0_2) \<and>
   profile_ids ids_0_2 (resolve ids_0_2 (By_id 2)) = Some 1 \<and>
   (\<exists>st'. deleteProfile (By_id 2) ids_0_2 = (None, st') \<and>
      profiles st' = [0] \<and>
      profile_ids st' ''2'' = None \<and>
      provider_get (provider st') ''profiles'' = Some (Profile_blobs (profile_blobs st')) \<and>
      trace st' = [Select_profiles 0, Profile_deleted 1])"
proof -
  have r0: "profile_ids ids_0_2 (resolve ids_0_2 (By_id 0)) = Some 0"
    by (simp add: resolve_def key_0' ids_0_2_def new_manager_def)
  have r2: "profile_ids ids_0_2 (resolve ids_0_2 (By_id 2)) = Some 1"
    by (simp add: resolve_def key_2 ids_0_2_def new_manager_def)
  have d0: "data_id (data (deref ids_0_2 0)) = 0"
    by (simp add: deref_def ids_0_2_def new_manager_def new_SettingsProfile_def blob_0_def)
  have d2: "data_id (data (deref ids_0_2 1)) \<noteq> 0"
    by (simp add: deref_def ids_0_2_def new_manager_def new_SettingsProfile_def blob_2_def)
  have f: "remove1 1 (profiles ids_0_2) = [0]" "trace ids_0_2 = []" "contexts ids_0_2 = [0]"
    "resolve ids_0_2 (By_id 2) = ''2''"
    by (simp_all add: ids_0_2_def new_manager_def resolve_def key_2)
  have a: "deleteProfile (By_id 0) ids_0_2 = (Some Cannot_delete_default, ids_0_2)"
    using deleteProfile_resolved [OF r0] d0 by blast
  obtain st' where c: "deleteProfile (By_id 2) ids_0_2 = (None, st')"
    and l: "profiles st' = remove1 1 (profiles ids_0_2)"
    and i: "profile_ids st' = (profile_ids ids_0_2)(resolve ids_0_2 (By_id 2) := None)"
    and p: "provider_get (provider st') ''profiles'' = Some (Profile_blobs (profile_blobs st'))"
    and t: "trace st' = trace ids_0_2 @ map Select_profiles (contexts ids_0_2) @
              [Profile_deleted 1]"
    using deleteProfile_resolved [OF r2] d2 by blast
  have "profiles st' = [0]" "profile_ids st' ''2'' = None"
    "trace st' = [Select_profiles 0, Profile_deleted 1]"
    using l i t f by simp_all
  then show ?thesis using r0 r2 a c p by blast
qed

text \<open>
  Claim C4 at \<open>deleteProfile(profile)\<close> with the default profile passed as an instance
  (the second form of the argument, line 568). The instance at address 0 is the default
  profile: its id is 0 and the id map holds it under the key \<open>0\<close>. Its id is falsy, so
  line 572 is skipped, the lookup of line 574 is made under \<open>[object Object]\<close> and finds
  nothing, and the call returns without an error, where the claim has it throw. (The
  manager is unchanged, as the claim says.)
\<close>

theorem deleteProfile_default_instance:
  "data_id (data (deref ids_0_2 0)) = 0 \<and>
   profile_ids ids_0_2 ''0'' = Some 0 \<and>
   resolve ids_0_2 (By_profile 0) = ''[object Object]'' \<and>
   deleteProfile (By_profile 0) ids_0_2 = (None, ids_0_2)"
  by (simp add: deleteProfile_def resolve_def deref_def ids_0_2_def new_manager_def
      new_SettingsProfile_def blob_0_def)

text \<open>
  The same profile by its id does throw, and an instance whose id is not 0 is resolved
  by its id.
\<close>

lemma deleteProfile_default_by_id:
  "deleteProfile (By_id 0) ids_0_2 = (Some Cannot_delete_default, ids_0_2)"
  by (simp add: deleteProfile_def resolve_def deref_def ids_0_2_def new_manager_def
      new_SettingsProfile_def blob_0_def key_0')

lemma deleteProfile_by_instance:
  "resolve ids_0_2 (By_profile 1) = ''2''"
  "deleteProfile (By_profile 1) ids_0_2 = deleteProfile (By_id 2) ids_0_2"
  by (simp_all add: deleteProfile_def resolve_def deref_def ids_0_2_def new_manager_def
      new_SettingsProfile_def blob_2_def key_2)

lemma key_3: "to_key 3 = ''3''"
  by code_simp

text \<open>The other example of the specification: with the ids 0, 1 and 2 in use, the search stops at 3.\<close>

lemma first_free_0_1_2:
  assumes "ids ''0'' \<noteq> None" "ids ''1'' \<noteq> None" "ids ''2'' \<noteq> None" "ids ''3'' = None"
  shows "first_free ids 0 = Some 3"
proof -
  have "first_free ids 3 = Some 3"
    using assms(4) by (subst first_free.simps) (simp add: key_3)
  then have "first_free ids 2 = Some 3"
    using assms(3) by (subst first_free.simps) (simp add: key_2 numeral_3_eq_3 numeral_2_eq_2)
  then have "first_free ids 1 = Some 3"
    using assms(2) by (subst first_free.simps) (simp add: key_1 numeral_2_eq_2)
  then show ?thesis
    using assms(1) by (subst first_free.simps) (simp add: key_0')
qed

section \<open>Changes reported by the provider\<close>

lemma indexOf_None: "indexOf xs x = None \<longleftrightarrow> x \<notin> set xs"
  by (induction xs) auto

lemma indexOf_Some:
  "indexOf xs x = Some i \<Longrightarrow> xs = take i xs @ x # drop (Suc i) xs \<and> x \<notin> set (take i xs)"
proof (induction xs arbitrary: i)
  case Nil
  then show ?case by simp
next
  case (Cons y ys)
  show ?case
  proof (cases "y = x")
    case True
    then show ?thesis using Cons.prems by simp
  next
    case False
    then obtain j where j: "indexOf ys x = Some j" and i: "i = Suc j"
      using Cons.prems by auto
    show ?thesis using Cons.IH [OF j] False by (simp add: i)
  qed
qed

lemma indexOf_append: "x \<notin> set a \<Longrightarrow> indexOf (a @ x # b) x = Some (length a)"
  by (induction a) auto

lemma starts_with_p: "starts_with key ''p:'' \<longleftrightarrow> (\<exists>rest. key = ''p:'' @ rest)"
proof
  assume "starts_with key ''p:''"
  then have "take (length ''p:'') key = ''p:''" by (simp only: starts_with_def)
  then have "key = ''p:'' @ drop (length ''p:'') key" by (metis append_take_drop_id)
  then show "\<exists>rest. key = ''p:'' @ rest" ..
next
  assume "\<exists>rest. key = ''p:'' @ rest"
  then show "starts_with key ''p:''" by (auto simp: starts_with_def)
qed

lemma onProviderChange_scoped:
  assumes "CHR '':'' \<notin> set ident"
  shows "onProviderChange M D (''p:'' @ ident @ '':'' @ sub) v del st =
     (case get_prop (profile_ids st) ident of
        Undefined \<Rightarrow> (None, st)
      | Inherited \<Rightarrow> (Some Type_error, st)
      | Own r \<Rightarrow> (None, st\<lparr>trace := trace st @ [Changed_on r sub v del]\<rparr>))"
proof -
  have sw: "starts_with (''p:'' @ ident @ '':'' @ sub) ''p:''"
    by (simp add: starts_with_def)
  have ne: "''p:'' @ ident @ '':'' @ sub \<noteq> ''profiles''"
    using assms by (cases ident) auto
  have ix: "indexOf (ident @ CHR '':'' # sub) CHR '':'' = Some (length ident)"
    using assms by (rule indexOf_append)
  show ?thesis
    unfolding onProviderChange_def Let_def using sw ne ix
    by (simp split: option.splits lookup.splits)
qed

lemma get_prop_cases:
  "get_prop ob k = Own r \<longleftrightarrow> ob k = Some r"
  "get_prop ob k = Inherited \<longleftrightarrow> ob k = None \<and> k \<in> set object_prototype_names"
  "get_prop ob k = Undefined \<longleftrightarrow> ob k = None \<and> k \<notin> set object_prototype_names"
  by (auto simp: get_prop_def split: option.splits)

text \<open>
  The branches of \<open>_onProviderChange\<close>. A change of the key \<open>profiles\<close> is answered
  by \<open>loadProfiles()\<close>. For a key \<open>p:<id>:<subkey>\<close> (no colon in the id part): when the id
  part is a key of the id map, one \<open>changed\<close> event is emitted on that instance, with the
  subkey, the value and the deletion flag; when it is not and is a name of
  \<open>Object.prototype\<close>, the call throws; otherwise, and for every other key, the manager
  is left as it was, with no event and no error.
\<close>

lemma onProviderChange_routes:
  "(key = ''profiles'' \<longrightarrow>
      onProviderChange M D key v del st = loadProfiles M D False st) \<and>
   (\<forall>ident sub r.
      key = ''p:'' @ ident @ '':'' @ sub \<and> CHR '':'' \<notin> set ident \<and> profile_ids st ident = Some r \<longrightarrow>
      onProviderChange M D key v del st =
        (None, st\<lparr>trace := trace st @ [Changed_on r sub v del]\<rparr>)) \<and>
   (\<forall>ident sub.
      key = ''p:'' @ ident @ '':'' @ sub \<and> CHR '':'' \<notin> set ident \<and> profile_ids st ident = None \<and>
      ident \<in> set object_prototype_names \<longrightarrow>
      onProviderChange M D key v del st = (Some Type_error, st)) \<and>
   (key \<noteq> ''profiles'' \<and>
    \<not> (\<exists>ident sub. key = ''p:'' @ ident @ '':'' @ sub \<and> CHR '':'' \<notin> set ident \<and>
          (profile_ids st ident \<noteq> None \<or> ident \<in> set object_prototype_names)) \<longrightarrow>
      onProviderChange M D key v del st = (None, st))"
proof (intro conjI allI impI)
  assume "key = ''profiles''"
  then show "onProviderChange M D key v del st = loadProfiles M D False st"
    by (simp add: onProviderChange_def)
next
  fix ident sub r
  assume "key = ''p:'' @ ident @ '':'' @ sub \<and> CHR '':'' \<notin> set ident \<and> profile_ids st ident = Some r"
  then show "onProviderChange M D key v del st =
        (None, st\<lparr>trace := trace st @ [Changed_on r sub v del]\<rparr>)"
    using onProviderChange_scoped [of ident M D sub v del st]
    by (simp add: get_prop_def)
next
  fix ident sub
  assume "key = ''p:'' @ ident @ '':'' @ sub \<and> CHR '':'' \<notin> set ident \<and> profile_ids st ident = None \<and>
      ident \<in> set object_prototype_names"
  then show "onProviderChange M D key v del st = (Some Type_error, st)"
    using onProviderChange_scoped [of ident M D sub v del st]
    by (simp add: get_prop_def)
next
  assume a: "key \<noteq> ''profiles'' \<and>
    \<not> (\<exists>ident sub. key = ''p:'' @ ident @ '':'' @ sub \<and> CHR '':'' \<notin> set ident \<and>
          (profile_ids st ident \<noteq> None \<or> ident \<in> set object_prototype_names))"
  show "onProviderChange M D key v del st = (None, st)"
  proof (cases "starts_with key ''p:''")
    case False
    then show ?thesis using a by (simp add: onProviderChange_def)
  next
    case True
    then obtain rest where k: "key = ''p:'' @ rest" using starts_with_p by blast
    show ?thesis
    proof (cases "indexOf rest CHR '':''")
      case None
      then show ?thesis using a True k by (simp add: onProviderChange_def)
    next
      case (Some idx)
      from indexOf_Some [OF Some]
      have r: "rest = take idx rest @ '':'' @ drop (Suc idx) rest"
        and n: "CHR '':'' \<notin> set (take idx rest)" by simp_all
      have "key = ''p:'' @ take idx rest @ '':'' @ drop (Suc idx) rest"
        using k r by simp
      then have "\<not> (profile_ids st (take idx rest) \<noteq> None \<or>
          take idx rest \<in> set object_prototype_names)"
        using a n by blast
      then have "get_prop (profile_ids st) (take idx rest) = Undefined"
        by (simp add: get_prop_cases)
      then show ?thesis using a True k Some by (simp add: onProviderChange_def)
    qed
  qed
qed

text \<open>
  Claim C7 at \<open>_onProviderChange('p:constructor:x', 8, false)\<close>: the id map has no own
  key \<open>constructor\<close>, the key is of the form \<open>p:<id>:<subkey>\<close> with an id no profile
  has, and the call throws a \<open>TypeError\<close> where the claim has it dropped silently.
\<close>

theorem onProviderChange_inherited_name:
  "profile_ids ids_0_2 ''constructor'' = None \<and>
   onProviderChange moderation_blob default_blob ''p:constructor:x'' (Plain (JNum 8)) False
     ids_0_2 = (Some Type_error, ids_0_2)"
  by (simp add: onProviderChange_def starts_with_def get_prop_def object_prototype_names_def
      ids_0_2_def new_manager_def)

text \<open>The other branches at the same manager.\<close>

lemma onProviderChange_examples:
  "onProviderChange moderation_blob default_blob ''profiles'' (Plain JNull) False ids_0_2 =
     loadProfiles moderation_blob default_blob False ids_0_2"
  "onProviderChange moderation_blob default_blob ''p:2:chat.lines'' (Plain (JNum 8)) False ids_0_2 =
     (None, ids_0_2\<lparr>trace := trace ids_0_2 @
        [Changed_on 1 ''chat.lines'' (Plain (JNum 8)) False]\<rparr>)"
  "onProviderChange moderation_blob default_blob ''p:2'' (Plain (JNum 8)) False ids_0_2 =
     (None, ids_0_2)"
  "onProviderChange moderation_blob default_blob ''p:9:chat.lines'' (Plain (JNum 8)) False ids_0_2 =
     (None, ids_0_2)"
  "onProviderChange moderation_blob default_blob ''theme'' (Plain (JNum 8)) False ids_0_2 =
     (None, ids_0_2)"
  by (simp_all add: onProviderChange_def starts_with_def get_prop_def object_prototype_names_def
      ids_0_2_def new_manager_def)

text \<open>
  The keys of integer ids are never names of \<open>Object.prototype\<close>: a decimal numeral
  ends in a digit.
\<close>

lemma last_string_of_nat: "last (string_of_nat n) = char_of (48 + n mod 10)"
  by (subst string_of_nat.simps) simp

lemma to_key_not_inherited: "to_key i \<notin> set object_prototype_names"
proof
  assume a: "to_key i \<in> set object_prototype_names"
  have "\<exists>n. to_key i = string_of_nat n \<or> to_key i = CHR ''-'' # string_of_nat n"
  proof (cases "i < 0")
    case True
    then show ?thesis by (intro exI [of _ "nat (- i)"]) (simp add: to_key_def)
  next
    case False
    then show ?thesis by (intro exI [of _ "nat i"]) (simp add: to_key_def)
  qed
  then obtain n where k: "to_key i = string_of_nat n \<or> to_key i = CHR ''-'' # string_of_nat n"
    by blast
  have "last (to_key i) = char_of (48 + n mod 10)"
    using k string_of_nat_not_Nil [of n] by (auto simp: last_string_of_nat)
  moreover have "n mod 10 < 10" by simp
  then have "(48 + n mod 10) mod 256 = 48 + n mod 10" by simp
  ultimately have "of_char (last (to_key i)) = 48 + n mod 10" by simp
  then have "of_char (last (to_key i)) < (58 :: nat)" by simp
  moreover have "\<forall>s \<in> set object_prototype_names. (95 :: nat) \<le> of_char (last s)"
    by (simp add: object_prototype_names_def)
  then have "(95 :: nat) \<le> of_char (last (to_key i))"
    using a by blast
  ultimately show False by simp
qed

section \<open>Loading profiles\<close>

lemma patch_context_new_format: "new_format pd \<Longrightarrow> patch_context M pd = pd"
  by (auto simp: new_format_def patch_context_def split: option.splits context_val.splits)

lemma load_step_blobs:
  assumes "step_ok oids ls"
  shows "profile_blobs (mgr (load_step M ops oids ls pd)) =
           profile_blobs (mgr ls) @ [patch_context M pd] \<and>
         step_ok oids (load_step M ops oids ls pd)"
proof (cases "oids (to_key (data_id pd))")
  case None
  then show ?thesis using assms
    by (auto simp: load_step_def Let_def step_ok_def profile_blobs_def deref_def
        nth_append new_SettingsProfile_def less_Suc_eq)
next
  case (Some r)
  then have r: "r < length (heap (mgr ls))" using assms by (simp add: step_ok_def)
  show ?thesis
  proof (cases "deep_equals (data (deref (mgr ls) r)) (patch_context M pd)")
    case True
    then show ?thesis using Some assms r
      by (auto simp: load_step_def Let_def step_ok_def profile_blobs_def deref_def
          deep_equals_def)
  next
    case False
    then show ?thesis using Some assms r
      by (auto simp: load_step_def Let_def step_ok_def profile_blobs_def deref_def
          nth_append nth_list_update new_SettingsProfile_def less_Suc_eq)
  qed
qed

lemma foldl_load_step_blobs:
  assumes "step_ok oids ls"
  shows "profile_blobs (mgr (foldl (load_step M ops oids) ls raw)) =
           profile_blobs (mgr ls) @ map (patch_context M) raw"
  using assms
proof (induction raw arbitrary: ls)
  case Nil
  then show ?case by simp
next
  case (Cons pd raw)
  show ?case
    using Cons.IH [of "load_step M ops oids ls pd"] load_step_blobs [OF Cons.prems, of M ops pd]
    by simp
qed

lemma profile_blobs_trace [simp]: "profile_blobs (st\<lparr>trace := t\<rparr>) = profile_blobs st"
  by (simp add: profile_blobs_def deref_def)

lemma loadProfiles_unfold:
  assumes "\<And>j. provider_get (provider st) ''profiles'' \<noteq> Some (Plain j)"
  shows "loadProfiles M D quiet st =
     (let ls = load_loop M (raw_list M D (provider_get (provider st) ''profiles'')) st;
          st1 = mgr ls
      in if (\<not> changed_flag ls \<and> old_ids ls = []) \<or> quiet then (None, st1)
         else (None, st1\<lparr>trace := trace st1 @ map Select_profiles (contexts st1) @
                        emit_for Profile_created st1 (new_ids ls) @
                        emit_for Profile_changed st1 (changed_ids ls) @
                        (if reordered ls then [Profiles_reordered] else [])\<rparr>))"
proof (cases "provider_get (provider st) ''profiles''")
  case None
  then show ?thesis
    by (simp add: loadProfiles_def load_loop_def raw_list_def Let_def)
next
  case (Some v)
  then obtain ps where v: "v = Profile_blobs ps" using assms by (cases v) auto
  show ?thesis unfolding Some v
    by (simp add: loadProfiles_def load_loop_def raw_list_def Some v Let_def)
qed

lemma load_loop_blobs:
  assumes ok: "refs_ok st"
  shows "profile_blobs (mgr (load_loop M raw st)) = map (patch_context M) raw"
proof -
  let ?reset = "st\<lparr>profile_ids := Map.empty, profiles := []\<rparr>"
  let ?init = "\<lparr>mgr = ?reset,
      old_ids = foldl (\<lambda>s r. set_add (data_id (data (deref st r))) s) [] (profiles st),
      new_ids = [], changed_ids = [], reordered = False, changed_flag = False\<rparr>"
  have s: "step_ok (profile_ids st) ?init" using ok by (simp add: step_ok_def refs_ok_def)
  have e: "profile_blobs ?reset = []" by (simp add: profile_blobs_def)
  show ?thesis
    unfolding load_loop_def
    using foldl_load_step_blobs [OF s, of M "profiles st" raw]
    by (simp add: e)
qed

lemma loadProfiles_blobs:
  assumes ok: "refs_ok st"
    and shape: "\<And>j. provider_get (provider st) ''profiles'' \<noteq> Some (Plain j)"
  shows "\<exists>st'. loadProfiles M D quiet st = (None, st') \<and>
           profile_blobs st' =
             map (patch_context M) (raw_list M D (provider_get (provider st) ''profiles''))"
  unfolding loadProfiles_unfold [OF shape] Let_def
  using load_loop_blobs [OF ok] by simp

text \<open>
  Claim C10. When the provider has no key \<open>profiles\<close>, \<open>loadProfiles\<close> returns with
  exactly two profiles in the list: the one built from the Moderation blob at index 0,
  then the one built from the Default blob. Their data is that of the two built-in blobs
  (after the rewriting of lines 491 to 497, which leaves a blob of the new format as it
  is).
\<close>

theorem loadProfiles_default_list:
  assumes "refs_ok st" and "provider_get (provider st) ''profiles'' = None"
  shows "\<exists>st'. loadProfiles Moderation Default suppress_events st = (None, st') \<and>
           profile_blobs st' =
             [patch_context Moderation Moderation, patch_context Moderation Default] \<and>
           (new_format Moderation \<and> new_format Default \<longrightarrow>
              profile_blobs st' = [Moderation, Default])"
proof -
  have "provider_get (provider st) ''profiles'' \<noteq> Some (Plain j)" for j
    using assms(2) by simp
  from loadProfiles_blobs [OF assms(1) this, of Moderation Default suppress_events]
  show ?thesis
    by (auto simp: assms(2) raw_list_def patch_context_new_format)
qed

theorem loadProfiles_default_list_witness:
  "refs_ok (new_manager [] [0] :: nat manager) \<and>
   provider_get (provider (new_manager [] [0] :: nat manager)) ''profiles'' = None \<and>
   (\<exists>st'. loadProfiles moderation_blob default_blob False (new_manager [] [0] :: nat manager) =
            (None, st') \<and>
          profile_blobs st' = [moderation_blob, default_blob])"
proof -
  have ok: "refs_ok (new_manager [] [0] :: nat manager)"
    by (simp add: refs_ok_def new_manager_def)
  have no: "provider_get (provider (new_manager [] [0] :: nat manager)) ''profiles'' = None"
    by (simp add: provider_get_def new_manager_def)
  have nf: "new_format moderation_blob \<and> new_format default_blob"
    by (simp add: new_format_def moderation_blob_def default_blob_def)
  show ?thesis
    using ok no nf loadProfiles_default_list [OF ok no, of moderation_blob default_blob False]
    by blast
qed

lemma restrict_insert_known:
  "m k = Some r \<Longrightarrow> (m |` A)(k \<mapsto> r) = m |` insert k A"
  by (auto simp: restrict_map_def fun_eq_iff)

lemma set_delete_filter:
  "set_delete i (filter (\<lambda>j. j \<notin> A) xs) = filter (\<lambda>j. j \<notin> insert i A) xs"
  by (induction xs) (auto simp: set_delete_def)

lemma load_step_in_sync:
  assumes r: "profile_ids st (key_of st r) = Some r"
    and ix: "indexOf ps r = Some (length pre)"
    and nf: "new_format (data (deref st r))"
  shows "load_step M ps (profile_ids st) (reloaded st ids pre) (data (deref st r)) =
           reloaded st ids (pre @ [r])"
proof -
  have p: "patch_context M (data (deref st r)) = data (deref st r)"
    using nf by (rule patch_context_new_format)
  have k: "profile_ids st (to_key (data_id (data (deref st r)))) = Some r"
    using r by (simp add: key_of_def)
  have m: "(profile_ids st |` (key_of st ` set pre))(to_key (data_id (data (deref st r))) \<mapsto> r) =
           profile_ids st |` (key_of st ` set (pre @ [r]))"
    using restrict_insert_known [of "profile_ids st" "to_key (data_id (data (deref st r)))" r
        "key_of st ` set pre"] k
    by (simp add: key_of_def)
  have d: "deref (st\<lparr>profile_ids := x, profiles := y\<rparr>) r = deref st r" for x y
    by (simp add: deref_def)
  show ?thesis
    unfolding load_step_def reloaded_def Let_def
    by (simp add: k ix p d m deep_equals_def set_delete_filter)
qed

lemma foldl_load_step_in_sync:
  assumes sync: "in_sync st"
    and nf: "\<forall>r \<in> set (profiles st). new_format (data (deref st r))"
    and split: "profiles st = pre @ suf"
  shows "foldl (load_step M (profiles st) (profile_ids st)) (reloaded st ids pre)
           (map (\<lambda>r. data (deref st r)) suf) = reloaded st ids (pre @ suf)"
  using split
proof (induction suf arbitrary: pre)
  case Nil
  then show ?case by simp
next
  case (Cons r suf)
  have "distinct (pre @ r # suf)" using sync Cons.prems by (simp add: in_sync_def)
  then have "r \<notin> set pre" by auto
  then have ix: "indexOf (profiles st) r = Some (length pre)"
    unfolding Cons.prems by (rule indexOf_append)
  have mem: "r \<in> set (profiles st)" using Cons.prems by simp
  have k: "profile_ids st (key_of st r) = Some r" using sync mem by (simp add: in_sync_def)
  have n: "new_format (data (deref st r))" using nf mem by blast
  have step: "load_step M (profiles st) (profile_ids st) (reloaded st ids pre)
                (data (deref st r)) = reloaded st ids (pre @ [r])"
    using k ix n by (rule load_step_in_sync)
  have "profiles st = (pre @ [r]) @ suf" using Cons.prems by simp
  from Cons.IH [OF this] show ?case by (simp add: step)
qed

lemma set_foldl_set_add:
  "set (foldl (\<lambda>s r. set_add (f r) s) acc xs) = set acc \<union> f ` set xs"
  by (induction xs arbitrary: acc) (auto simp: set_add_def)

lemma load_loop_in_sync:
  assumes sync: "in_sync st"
    and nf: "\<forall>r \<in> set (profiles st). new_format (data (deref st r))"
  shows "load_loop M (profile_blobs st) st =
           \<lparr>mgr = st\<lparr>profile_ids := profile_ids st |` (key_of st ` set (profiles st))\<rparr>,
            old_ids = [], new_ids = [], changed_ids = [], reordered = False,
            changed_flag = False\<rparr>"
proof -
  let ?ids = "foldl (\<lambda>s r. set_add (data_id (data (deref st r))) s) [] (profiles st)"
  have init: "\<lparr>mgr = st\<lparr>profile_ids := Map.empty, profiles := []\<rparr>, old_ids = ?ids,
        new_ids = [], changed_ids = [], reordered = False, changed_flag = False\<rparr> =
      reloaded st ?ids []"
    by (simp add: reloaded_def)
  have "set ?ids = (\<lambda>r. data_id (data (deref st r))) ` set (profiles st)"
    by (simp add: set_foldl_set_add)
  then have gone: "filter (\<lambda>i. i \<notin> (\<lambda>r. data_id (data (deref st r))) ` set (profiles st)) ?ids = []"
    by (simp add: filter_empty_conv)
  have "load_loop M (profile_blobs st) st = reloaded st ?ids ([] @ profiles st)"
    unfolding load_loop_def init profile_blobs_def
    using sync nf by (intro foldl_load_step_in_sync) simp_all
  then show ?thesis by (simp add: reloaded_def gone)
qed

text \<open>
  Claim C2, as amended. The manager holds each listed instance once and under its id in
  the id map, the list persisted under \<open>profiles\<close> is the list of the instances' data in
  the same order, and no blob has a context of the old format. Then \<open>loadProfiles()\<close>
  emits nothing (the trace is what it was), and the profile list and the store of
  instances, listeners included, are what they were; the id map keeps exactly the
  listed instances.
\<close>

theorem loadProfiles_in_sync:
  assumes "provider_get (provider st) ''profiles'' = Some (Profile_blobs (profile_blobs st))"
    and "in_sync st"
    and "\<forall>r \<in> set (profiles st). new_format (data (deref st r))"
  shows "\<exists>st'. loadProfiles Moderation Default False st = (None, st') \<and>
           st' = st\<lparr>profile_ids := profile_ids st |` (key_of st ` set (profiles st))\<rparr> \<and>
           trace st' = trace st \<and> profiles st' = profiles st \<and> heap st' = heap st \<and>
           (\<forall>r \<in> set (profiles st). profile_ids st' (key_of st r) = Some r)"
proof -
  have shape: "provider_get (provider st) ''profiles'' \<noteq> Some (Plain j)" for j
    using assms(1) by simp
  have "loadProfiles Moderation Default False st =
      (None, st\<lparr>profile_ids := profile_ids st |` (key_of st ` set (profiles st))\<rparr>)"
    unfolding loadProfiles_unfold [OF shape] assms(1) Let_def
    by (simp add: raw_list_def load_loop_in_sync [OF assms(2,3)])
  then show ?thesis using assms(2) by (simp add: in_sync_def)
qed

text \<open>The state of the counterexample is the one \<open>createProfile\<close> leaves.\<close>

lemma legacy_state_reachable:
  "createProfile (Some legacy_options) (new_manager [] [0]) = Some (legacy_state, 0)"
proof -
  have "first_free (profile_ids (new_manager [] [0] :: nat manager)) 0 = Some 0"
    by (subst first_free.simps) (simp add: new_manager_def)
  then show ?thesis
    by (simp add: createProfile_def Let_def legacy_state_def new_manager_def saveProfiles_def
        profile_blobs_def deref_def new_SettingsProfile_def legacy_options_def truthy_def
        key_0')
qed

text \<open>
  Claim C2 as stated fails for a profile whose data has a context of the old format:
  the persisted blob is rewritten before it is compared, so the instance is replaced
  by a new one and \<open>profile-changed\<close> is emitted.
\<close>

theorem loadProfiles_in_sync_counterexample:
  "provider_get (provider legacy_state) ''profiles'' =
     Some (Profile_blobs (profile_blobs legacy_state)) \<and>
   in_sync legacy_state \<and>
   trace (snd (loadProfiles moderation_blob default_blob False legacy_state)) =
     trace legacy_state @ [Select_profiles 0, Profile_changed 1] \<and>
   profiles legacy_state = [0] \<and>
   profiles (snd (loadProfiles moderation_blob default_blob False legacy_state)) = [1]"
proof -
  have s: "in_sync legacy_state"
    by (simp add: in_sync_def legacy_state_def new_manager_def key_of_def deref_def
        new_SettingsProfile_def legacy_options_def key_0')
  have p: "provider_get (provider legacy_state) ''profiles'' =
     Some (Profile_blobs (profile_blobs legacy_state))"
    by (simp add: provider_get_def legacy_state_def new_manager_def profile_blobs_def deref_def
        new_SettingsProfile_def)
  have l: "loadProfiles moderation_blob default_blob False legacy_state =
     (None, legacy_state\<lparr>profiles := [1], profile_ids := [''0'' \<mapsto> 1],
        heap := [new_SettingsProfile legacy_options,
                 new_SettingsProfile (legacy_options\<lparr>data_context := Some (Rules [''Moderator''])\<rparr>)],
        trace := [Select_profiles 0, Profile_created 0, Select_profiles 0, Profile_changed 1]\<rparr>)"
    by (simp add: loadProfiles_def Let_def provider_get_def legacy_state_def new_manager_def
        load_step_def patch_context_def deep_equals_def set_add_def set_delete_def
        emit_for_def List.map_filter_def deref_def new_SettingsProfile_def legacy_options_def
        moderation_blob_def key_0')
  show ?thesis using s p by (simp add: l) (simp add: legacy_state_def)
qed

theorem loadProfiles_in_sync_witness:
  "provider_get (provider ids_0_2) ''profiles'' = Some (Profile_blobs (profile_blobs ids_0_2)) \<and>
   in_sync ids_0_2 \<and>
   (\<exists>st'. loadProfiles moderation_blob default_blob False ids_0_2 = (None, st') \<and>
      trace st' = trace ids_0_2 \<and> profiles st' = [1, 0] \<and> heap st' = heap ids_0_2 \<and>
      profile_ids st' ''2'' = Some 1 \<and> profile_ids st' ''0'' = Some 0)"
proof -
  have p: "provider_get (provider ids_0_2) ''profiles'' =
      Some (Profile_blobs (profile_blobs ids_0_2))"
    by (simp add: provider_get_def ids_0_2_def new_manager_def profile_blobs_def deref_def
        new_SettingsProfile_def)
  have k: "key_of ids_0_2 0 = ''0''" "key_of ids_0_2 1 = ''2''"
    by (simp_all add: key_of_def ids_0_2_def new_manager_def deref_def new_SettingsProfile_def
        blob_0_def blob_2_def key_0' key_2)
  have l: "profiles ids_0_2 = [1, 0]" by (simp add: ids_0_2_def new_manager_def)
  have s: "in_sync ids_0_2"
    using k by (simp add: in_sync_def l) (simp add: ids_0_2_def new_manager_def)
  have n: "\<forall>r \<in> set (profiles ids_0_2). new_format (data (deref ids_0_2 r))"
    by (simp add: l) (simp add: ids_0_2_def new_manager_def deref_def new_SettingsProfile_def
        blob_0_def blob_2_def new_format_def)
  show ?thesis
    using p s loadProfiles_in_sync [OF p s n, of moderation_blob default_blob] k
    by (simp add: l)
qed

section \<open>Backup\<close>

lemma backup_fold_lookup:
  "foldl (\<lambda>out (k, v). assign out k v) acc p k =
     (if k = ''__proto__'' then acc k
      else (case map_of (rev p) k of None \<Rightarrow> acc k | Some v \<Rightarrow> Some v))"
proof (induction p arbitrary: acc)
  case Nil
  then show ?case by simp
next
  case (Cons kv p)
  obtain k' v' where kv: "kv = (k', v')" by (cases kv)
  show ?case
    using Cons.IH [of "assign acc k' v'"]
    by (auto simp: kv assign_def map_add_def split: option.splits)
qed

lemma map_of_rev_distinct: "distinct (map fst p) \<Longrightarrow> map_of (rev p) = map_of p"
  by (rule map_of_inject_set [THEN iffD2]) (simp_all add: rev_map [symmetric])

lemma backup_values_lookup:
  assumes "provider_ready st"
  shows "\<exists>b. getFullBackup st = Resolved b \<and> version b = 2 \<and> backup_type b = ''full'' \<and>
           dom (backup_values b) = fst ` set (provider st) - {''__proto__''} \<and>
           (distinct (map fst (provider st)) \<longrightarrow>
              (\<forall>k. k \<noteq> ''__proto__'' \<longrightarrow> backup_values b k = provider_get (provider st) k))"
proof -
  let ?v = "foldl (\<lambda>out (k, v). assign out k v) Map.empty (provider st)"
  have l: "?v k = (if k = ''__proto__'' then None else map_of (rev (provider st)) k)" for k
    by (simp add: backup_fold_lookup split: option.splits)
  have "dom ?v = fst ` set (provider st) - {''__proto__''}"
  proof (rule set_eqI)
    fix k
    have "k \<in> dom (map_of (rev (provider st))) \<longleftrightarrow> k \<in> fst ` set (provider st)"
      by (simp add: dom_map_of_conv_image_fst)
    then show "k \<in> dom ?v \<longleftrightarrow> k \<in> fst ` set (provider st) - {''__proto__''}"
      by (auto simp: l dom_def)
  qed
  moreover have "?v k = provider_get (provider st) k"
    if "distinct (map fst (provider st))" "k \<noteq> ''__proto__''" for k
    using that by (simp add: l map_of_rev_distinct provider_get_def)
  ultimately show ?thesis using assms by (simp add: getFullBackup_def)
qed

lemma getFullBackup_pending: "\<not> provider_ready st \<Longrightarrow> getFullBackup st = Pending"
  by (simp add: getFullBackup_def)

text \<open>
  Claim C6 at a provider that holds the key \<open>__proto__\<close>: the provider is ready and has
  the keys \<open>__proto__\<close> and \<open>theme\<close>, and the \<open>values\<close> of the backup have the key
  \<open>theme\<close> only, so the key set of the backup is not the key set of the provider.
\<close>

theorem getFullBackup_drops_proto:
  "provider_ready proto_state \<and>
   map fst (provider proto_state) = [''__proto__'', ''theme''] \<and>
   getFullBackup proto_state =
     Resolved \<lparr>version = 2, backup_type = ''full'',
               backup_values = [''theme'' \<mapsto> Plain (JStr ''dark'')]\<rparr>"
  by (simp add: getFullBackup_def proto_state_def new_manager_def assign_def)

text \<open>
  For every other key the backup is a snapshot: with the provider ready, \<open>version\<close> is
  2, \<open>type\<close> is \<open>full\<close>, the keys of \<open>values\<close> are the keys of the provider other than
  \<open>__proto__\<close>, each with the value the provider has for it (lemma
  \<open>backup_values_lookup\<close>); before that the call is pending.
\<close>

lemma getFullBackup_example:
  "getFullBackup ids_0_2 =
     Resolved \<lparr>version = 2, backup_type = ''full'',
       backup_values = [''profiles'' \<mapsto> Profile_blobs [blob_2, blob_0],
                        ''p:2:chat.lines'' \<mapsto> Plain (JNum 7),
                        ''p:0:chat.lines'' \<mapsto> Plain (JNum 9)]\<rparr>"
  by (simp add: getFullBackup_def ids_0_2_def new_manager_def assign_def)

section \<open>The update sweep\<close>

lemma scheduleUpdates_timers:
  assumes "timers_ok st"
  shows "pending_timers (scheduleUpdates st) = [(next_timer st, 5000)]"
    and "update_timer (scheduleUpdates st) = Some (next_timer st)"
    and "next_timer (scheduleUpdates st) = Suc (next_timer st)"
proof -
  have "pending_timers st = [] \<or>
      (\<exists>h. update_timer st = Some h \<and> 0 < h \<and> pending_timers st = [(h, 5000)])"
    using assms by (auto simp: timers_ok_def)
  then show "pending_timers (scheduleUpdates st) = [(next_timer st, 5000)]"
    by (auto simp: scheduleUpdates_def setTimeout_def clearTimeout_def split: option.splits)
  show "update_timer (scheduleUpdates st) = Some (next_timer st)"
    by (auto simp: scheduleUpdates_def setTimeout_def clearTimeout_def split: option.splits)
  show "next_timer (scheduleUpdates st) = Suc (next_timer st)"
    by (auto simp: scheduleUpdates_def setTimeout_def clearTimeout_def split: option.splits)
qed

lemma scheduleUpdates_ok: "timers_ok st \<Longrightarrow> timers_ok (scheduleUpdates st)"
  using scheduleUpdates_timers [of st] by (simp add: timers_ok_def)

lemma checkUpdates_fields:
  "pending_timers (checkUpdates refreshed st) = pending_timers st"
  "update_timer (checkUpdates refreshed st) = update_timer st"
  "next_timer (checkUpdates refreshed st) = next_timer st"
  "profiles (checkUpdates refreshed st) = profiles st"
  "heap (checkUpdates refreshed st) = heap st"
  "provider (checkUpdates refreshed st) = provider st"
  by (simp_all add: checkUpdates_def Let_def)

text \<open>
  Claim C3, as amended. In a manager that arms its timers through \<open>scheduleUpdates\<close>
  only: \<open>scheduleUpdates()\<close> cancels the pending timer, if any, and arms a new one of
  5000 ms, so that exactly one timer is outstanding after the call, its handle in
  \<open>_update_timer\<close>; \<open>checkUpdates()\<close> arms no timer, so once the pending timer has fired
  and the sweep has run, no timer is outstanding; a sweep calls \<open>checkUpdate()\<close> on
  exactly the profiles whose \<open>url\<close> is truthy, in list order, and logs the number of
  truthy results together with the number of calls.
\<close>

theorem update_sweep_one_shot:
  assumes "timers_ok st"
  shows "(\<exists>h. pending_timers (scheduleUpdates st) = [(h, 5000)] \<and>
              update_timer (scheduleUpdates st) = Some h) \<and>
         timers_ok (scheduleUpdates st) \<and>
         pending_timers (checkUpdates refreshed st) = pending_timers st \<and>
         update_timer (checkUpdates refreshed st) = update_timer st \<and>
         (\<forall>h. pending_timers st = [(h, 5000)] \<longrightarrow>
              pending_timers (fire refreshed h st) = [] \<and> timers_ok (fire refreshed h st)) \<and>
         trace (checkUpdates refreshed st) =
           trace st @ map Check_update (filter (has_url st) (profiles st)) @
             [Log_refreshed (length (filter refreshed (filter (has_url st) (profiles st))))
                (length (filter (has_url st) (profiles st)))]"
proof -
  have f: "pending_timers (fire refreshed h st) = [] \<and> timers_ok (fire refreshed h st)"
    if "pending_timers st = [(h, 5000)]" for h
    using that assms
    by (simp add: fire_def checkUpdates_fields clearTimeout_def timers_ok_def)
  show ?thesis
    using scheduleUpdates_timers [OF assms] scheduleUpdates_ok [OF assms] f
    by (simp add: checkUpdates_fields) (simp add: checkUpdates_def Let_def)
qed

text \<open>
  Claim C3 as stated fails: after the armed timer has fired and \<open>checkUpdates()\<close> has
  run, no timer is pending.
\<close>

theorem update_sweep_one_shot_counterexample:
  "pending_timers (scheduleUpdates (new_manager [] [0] :: nat manager)) = [(1, 5000)] \<and>
   pending_timers (fire (\<lambda>r. True) 1 (scheduleUpdates (new_manager [] [0] :: nat manager))) = []"
  by (simp add: scheduleUpdates_def setTimeout_def clearTimeout_def fire_def checkUpdates_def
      new_manager_def Let_def)

theorem update_sweep_one_shot_witness:
  "timers_ok ids_0_2 \<and>
   pending_timers (scheduleUpdates ids_0_2) = [(1, 5000)] \<and>
   update_timer (scheduleUpdates ids_0_2) = Some 1 \<and>
   pending_timers (scheduleUpdates (scheduleUpdates ids_0_2)) = [(2, 5000)] \<and>
   pending_timers (fire (\<lambda>r. r = 1) 1 (scheduleUpdates ids_0_2)) = [] \<and>
   trace (checkUpdates (\<lambda>r. r = 1) ids_0_2) = [Check_update 1, Log_refreshed 1 1]"
proof -
  have ok: "timers_ok ids_0_2" by (simp add: timers_ok_def ids_0_2_def new_manager_def)
  have ok': "timers_ok (scheduleUpdates ids_0_2)"
    using update_sweep_one_shot [OF ok] by blast
  have n: "next_timer ids_0_2 = 1" by (simp add: ids_0_2_def new_manager_def)
  have a: "pending_timers (scheduleUpdates ids_0_2) = [(1, 5000)]"
    "update_timer (scheduleUpdates ids_0_2) = Some 1"
    by (simp_all add: scheduleUpdates_def setTimeout_def clearTimeout_def ids_0_2_def
        new_manager_def)
  have b: "pending_timers (scheduleUpdates (scheduleUpdates ids_0_2)) = [(2, 5000)]"
    by (simp add: scheduleUpdates_def setTimeout_def clearTimeout_def ids_0_2_def
        new_manager_def)
  have u: "filter (has_url ids_0_2) (profiles ids_0_2) = [1]"
    by (simp add: has_url_def ids_0_2_def new_manager_def deref_def new_SettingsProfile_def
        blob_0_def blob_2_def truthy_def)
  have t: "trace ids_0_2 = []" by (simp add: ids_0_2_def new_manager_def)
  have c: "pending_timers (fire (\<lambda>r. r = 1) 1 (scheduleUpdates ids_0_2)) = []"
    using update_sweep_one_shot [OF ok', of "\<lambda>r. r = 1"] a by blast
  have d: "trace (checkUpdates (\<lambda>r. r = 1) ids_0_2) = [Check_update 1, Log_refreshed 1 1]"
    using update_sweep_one_shot [OF ok, of "\<lambda>r. r = 1"] by (simp add: u t)
  show ?thesis using ok a b c d by blast
qed

end
